theory Spec2Isabelle
  imports Complex_Main
begin

section \<open>TB Resonance Optimizer: constants and inputs\<close>

text \<open>
  The script \<^verbatim>\<open>TB-Resonance-Optimizer.py\<close> reads an inventory of parts, a chip budget and
  one minimum resonance per TB, enumerates every triple of part instances with every
  multiplier, and hands a 0/1 linear program to PuLP. The model follows the script top to
  bottom. A Python float is an IEEE 754 double; it is modelled by the rational number that
  is its value, and every float operation of the script by the exact operation followed by
  the rounding to the nearest double.
\<close>

datatype part_type = E | R4 | R3 | R2 | R1 | R | Y3 | Y2 | Y1 | Y

text \<open>The two dictionaries keep their insertion order, which the script iterates over.\<close>

definition PART_BASE_VALUES :: "(part_type \<times> nat) list" where
  "PART_BASE_VALUES =
     [(E, 1000), (R4, 850), (R3, 700), (R2, 550), (R1, 400),
      (R, 300), (Y3, 200), (Y2, 150), (Y1, 100), (Y, 50)]"

subsection \<open>Doubles\<close>

text \<open>
  Rounding to the nearest double, ties to even: a double has 53 significant bits, so a value
  \<open>x\<close> with \<open>2 ^ e \<le> x < 2 ^ (e + 1)\<close> is rounded to a multiple of \<open>2 ^ (e - 52)\<close>. The
  script computes only 0 and values of at least 1 (the multipliers, the scores, their totals
  and the bound of the validation), far from overflow; values below 1 are left as they are.
\<close>

function floor_log2 :: "int \<Rightarrow> nat" where
  "floor_log2 n = (if n < 2 then 0 else Suc (floor_log2 (n div 2)))"
  by pat_completeness auto
termination
  by (relation "measure nat") auto

declare floor_log2.simps [simp del]

definition round_half_even :: "rat \<Rightarrow> int" where
  "round_half_even q =
     (let f = \<lfloor>q\<rfloor>; d = q - of_int f
      in if d < 1 / 2 then f else if 1 / 2 < d then f + 1 else if even f then f else f + 1)"

definition round_double :: "rat \<Rightarrow> rat" where
  "round_double x =
     (if x < 1 then x
      else let e = floor_log2 \<lfloor>x\<rfloor>
           in if e \<le> 52 then of_int (round_half_even (x * 2 ^ (52 - e))) / 2 ^ (52 - e)
              else of_int (round_half_even (x / 2 ^ (e - 52))) * 2 ^ (e - 52))"

text \<open>\<^verbatim>\<open>a * b\<close> and \<^verbatim>\<open>a + b\<close> on floats; an integer operand is converted first, exactly.\<close>

definition float_mul :: "rat \<Rightarrow> rat \<Rightarrow> rat" where
  "float_mul a b = round_double (a * b)"

definition float_add :: "rat \<Rightarrow> rat \<Rightarrow> rat" where
  "float_add a b = round_double (a + b)"

text \<open>The multipliers are the doubles that Python reads from the literals \<^verbatim>\<open>1.0\<close>, \<^verbatim>\<open>1.2\<close>,
  \<^verbatim>\<open>1.4\<close>, ...: the nearest double of each.\<close>

definition MULTIPLIER_DATA :: "(nat \<times> rat) list" where
  "MULTIPLIER_DATA =
     [(0, round_double 1), (1, round_double (12 / 10)), (2, round_double (14 / 10)),
      (4, round_double (16 / 10)), (6, round_double (18 / 10)), (9, round_double 2),
      (12, round_double (22 / 10)), (16, round_double (24 / 10)), (20, round_double (26 / 10)),
      (25, round_double (28 / 10)), (30, round_double 3), (36, round_double (32 / 10)),
      (42, round_double (34 / 10)), (48, round_double (36 / 10)), (54, round_double (38 / 10)),
      (60, round_double 4), (66, round_double (42 / 10)), (72, round_double (44 / 10)),
      (78, round_double (46 / 10)), (84, round_double (48 / 10)), (90, round_double 5)]"

definition PARTS_PER_TB :: nat where
  "PARTS_PER_TB = 3"

text \<open>\<^verbatim>\<open>PART_BASE_VALUES[p]\<close>: every part type is a key, so the lookup never raises.\<close>

definition base_value :: "part_type \<Rightarrow> nat" where
  "base_value p = the (map_of PART_BASE_VALUES p)"

text \<open>\<^verbatim>\<open>max(values)\<close> of a non-empty sequence.\<close>

fun maximum :: "rat list \<Rightarrow> rat" where
  "maximum [] = 0"
| "maximum (v # vs) = fold max vs v"

text \<open>
  The four number-input widgets. Each has \<^verbatim>\<open>min_value=0\<close> (\<^verbatim>\<open>min_value=1\<close> for the number
  of TBs) and an integer step, so the values are natural numbers. The minimum of TB \<open>i\<close> is
  read from the widget with key \<^verbatim>\<open>minreq_i\<close>, one per \<^verbatim>\<open>i in range(NUM_TBS)\<close>.
\<close>

record inputs =
  NUM_TBS :: nat
  total_chips_available :: nat
  available_parts_input :: "part_type \<Rightarrow> nat"
  minreq :: "nat \<Rightarrow> nat"

definition min_reqs_per_tb :: "inputs \<Rightarrow> nat list" where
  "min_reqs_per_tb inp = map (minreq inp) [0..<NUM_TBS inp]"

section \<open>Input validation\<close>

definition input_issues :: "inputs \<Rightarrow> string list" where
  "input_issues inp =
     (if sum_list (map (available_parts_input inp) (map fst PART_BASE_VALUES))
           < PARTS_PER_TB * NUM_TBS inp
      then [''Not enough parts to fill all TBs.''] else [])
     @ (if total_chips_available inp < NUM_TBS inp
        then [''Chips are very low; you may not be able to meet requirements.''] else [])
     @ (if list_ex (\<lambda>x. of_nat x > float_mul (of_nat (sum_list (map base_value
                                                                   (map fst PART_BASE_VALUES))))
                                                   (maximum (map snd MULTIPLIER_DATA)))
             (min_reqs_per_tb inp)
        then [''One or more minimum resonance requirements are impossibly high.''] else [])"

section \<open>Candidate generation\<close>

definition part_instance_list :: "inputs \<Rightarrow> part_type list" where
  "part_instance_list inp =
     concat (map (\<lambda>part_type. replicate (available_parts_input inp part_type) part_type)
                 (map fst PART_BASE_VALUES))"

text \<open>\<^verbatim>\<open>itertools.combinations(xs, k)\<close>: the \<open>k\<close>-element subsequences, in lexicographic order
  of their positions.\<close>

fun combinations :: "nat \<Rightarrow> 'a list \<Rightarrow> 'a list list" where
  "combinations 0 xs = [[]]"
| "combinations (Suc k) [] = []"
| "combinations (Suc k) (x # xs) = map ((#) x) (combinations k xs) @ combinations (Suc k) xs"

record combo =
  idxs :: "nat list"
  parts :: "part_type list"
  chips :: nat
  resonance :: rat

text \<open>The body of the outer loop: one dictionary per entry of the multiplier table.\<close>

definition combos_of :: "part_type list \<Rightarrow> nat list \<Rightarrow> combo list" where
  "combos_of pil is =
     (let ps = map (\<lambda>i. pil ! i) is;
          base = sum_list (map base_value ps)
      in map (\<lambda>(c, mult). \<lparr>idxs = is, parts = ps, chips = c,
                           resonance = float_mul (of_nat base) mult\<rparr>)
             MULTIPLIER_DATA)"

definition combos :: "inputs \<Rightarrow> combo list" where
  "combos inp =
     concat (map (combos_of (part_instance_list inp))
                 (combinations PARTS_PER_TB [0..<length (part_instance_list inp)]))"

section \<open>The linear program\<close>

text \<open>
  A PuLP problem: binary variables named by their keys \<open>(cidx, tb)\<close>, an objective to
  maximise and a list of linear constraints. An affine expression \<^verbatim>\<open>lpSum(...)\<close> is the
  list of its terms, a variable with its coefficient.
\<close>

type_synonym lp_key = "nat \<times> nat"

datatype lp_sense = LpConstraintLE | LpConstraintEQ

record lp_constraint =
  lhs :: "(lp_key \<times> rat) list"
  sense :: lp_sense
  rhs :: rat

record lp_problem =
  variables :: "lp_key list"
  objective :: "(lp_key \<times> rat) list"
  constraints :: "lp_constraint list"

text \<open>The keys of the dictionary \<open>x\<close>, in insertion order: only the pairs whose combo
  reaches the minimum of the TB get a variable.\<close>

definition x_keys :: "inputs \<Rightarrow> lp_key list" where
  "x_keys inp =
     concat (map (\<lambda>tb. map (\<lambda>cidx. (cidx, tb))
                            (filter (\<lambda>cidx. resonance (combos inp ! cidx)
                                               \<ge> of_nat (min_reqs_per_tb inp ! tb))
                                    [0..<length (combos inp)]))
                 [0..<NUM_TBS inp])"

definition TB_Resonance_Max :: "inputs \<Rightarrow> lp_problem" where
  "TB_Resonance_Max inp =
     \<lparr>variables = x_keys inp,
      objective = map (\<lambda>(cidx, tb). ((cidx, tb), resonance (combos inp ! cidx))) (x_keys inp),
      constraints =
        map (\<lambda>tb. \<lparr>lhs = map (\<lambda>k. (k, 1)) (filter (\<lambda>(cidx, tb2). tb2 = tb) (x_keys inp)),
                   sense = LpConstraintEQ, rhs = 1\<rparr>)
            [0..<NUM_TBS inp]
        @ map (\<lambda>i. \<lparr>lhs = map (\<lambda>k. (k, 1))
                               (filter (\<lambda>(cidx, tb). i \<in> set (idxs (combos inp ! cidx)))
                                       (x_keys inp)),
                     sense = LpConstraintLE, rhs = 1\<rparr>)
              [0..<length (part_instance_list inp)]
        @ [\<lparr>lhs = map (\<lambda>(cidx, tb). ((cidx, tb), of_nat (chips (combos inp ! cidx))))
                      (x_keys inp),
            sense = LpConstraintLE, rhs = of_nat (total_chips_available inp)\<rparr>]\<rparr>"

subsection \<open>The solver\<close>

text \<open>
  \<^verbatim>\<open>prob.solve()\<close> runs PuLP's default solver, which is not part of the repository. It is
  modelled by what an exact solver of 0/1 programs returns: the status \<^verbatim>\<open>LpStatusOptimal\<close>
  with variable values that satisfy every constraint and maximise the objective, or another
  status when no values satisfy the constraints (the program is bounded, its variables
  being binary). The coefficients of the program are the doubles the script computed; the
  solver's own arithmetic and tolerances are not modelled: its values are taken to be exactly
  0 or 1 and its optimum to be exact. Ties between optimal points are the solver's choice, so
  \<open>solve\<close> is a relation.
\<close>

definition affine_value :: "(lp_key \<Rightarrow> rat) \<Rightarrow> (lp_key \<times> rat) list \<Rightarrow> rat" where
  "affine_value varValue e = sum_list (map (\<lambda>(k, a). a * varValue k) e)"

definition satisfies :: "(lp_key \<Rightarrow> rat) \<Rightarrow> lp_constraint \<Rightarrow> bool" where
  "satisfies varValue c =
     (case sense c of
        LpConstraintLE \<Rightarrow> affine_value varValue (lhs c) \<le> rhs c
      | LpConstraintEQ \<Rightarrow> affine_value varValue (lhs c) = rhs c)"

definition feasible :: "lp_problem \<Rightarrow> (lp_key \<Rightarrow> rat) \<Rightarrow> bool" where
  "feasible prob varValue =
     (list_all (\<lambda>k. varValue k = 0 \<or> varValue k = 1) (variables prob)
      \<and> list_all (satisfies varValue) (constraints prob))"

definition optimal :: "lp_problem \<Rightarrow> (lp_key \<Rightarrow> rat) \<Rightarrow> bool" where
  "optimal prob varValue =
     (feasible prob varValue
      \<and> (\<forall>w. feasible prob w
            \<longrightarrow> affine_value w (objective prob) \<le> affine_value varValue (objective prob)))"

datatype lp_status = LpStatusOptimal | LpStatusInfeasible

inductive solve :: "lp_problem \<Rightarrow> lp_status \<times> (lp_key \<Rightarrow> rat) \<Rightarrow> bool" where
  solve_optimal: "optimal prob varValue \<Longrightarrow> solve prob (LpStatusOptimal, varValue)"
| solve_infeasible: "\<not> (\<exists>w. feasible prob w) \<Longrightarrow> solve prob (LpStatusInfeasible, varValue)"

section \<open>The Solve button\<close>

text \<open>
  What the handler shows: the error of the input gate, the table of the best configuration
  with its total resonance, or the error of the solver's failure. The table loop subscripts
  every entry of \<open>tb_configs\<close>, which raises \<^verbatim>\<open>TypeError\<close> on an entry still \<^verbatim>\<open>None\<close>. It also
  looks the chips of each group up in the multiplier table, where they are a key, since every
  combo takes its chips from that table. The total is kept as it is summed; the page prints
  it, and the resonance of each row, truncated to an integer. Every status other than
  \<^verbatim>\<open>LpStatusOptimal\<close> leads to the same error.
\<close>

datatype outcome =
    Fix_input_issues
  | Best_configuration "combo list" rat
  | No_valid_configuration
  | TypeError

definition tb_configs :: "inputs \<Rightarrow> (lp_key \<Rightarrow> rat) \<Rightarrow> combo option list" where
  "tb_configs inp varValue =
     foldl (\<lambda>cfgs (cidx, tb).
              if varValue (cidx, tb) > 1 / 2 then cfgs[tb := Some (combos inp ! cidx)] else cfgs)
           (replicate (NUM_TBS inp) None) (x_keys inp)"

fun table_rows :: "combo option list \<Rightarrow> outcome" where
  "table_rows cfgs =
     (if list_ex (\<lambda>config. config = None) cfgs then TypeError
      else Best_configuration (map the cfgs)
             (foldl float_add 0 (map (\<lambda>config. resonance (the config)) cfgs)))"

definition after_solve :: "inputs \<Rightarrow> lp_status \<times> (lp_key \<Rightarrow> rat) \<Rightarrow> outcome" where
  "after_solve inp r =
     (case r of (status, varValue) \<Rightarrow>
        if status = LpStatusOptimal then table_rows (tb_configs inp varValue)
        else No_valid_configuration)"

inductive solve_button :: "inputs \<Rightarrow> outcome \<Rightarrow> bool" where
  gate: "input_issues inp \<noteq> [] \<Longrightarrow> solve_button inp Fix_input_issues"
| solved: "input_issues inp = [] \<Longrightarrow> solve (TB_Resonance_Max inp) r
           \<Longrightarrow> solve_button inp (after_solve inp r)"

section \<open>Assignments and the inputs of the scenarios\<close>

text \<open>
  What the specification calls a feasible assignment: one candidate group per TB, each
  reaching the minimum of its TB, no part instance index in two groups, and the chips of the
  groups within the chips available.
\<close>

definition feasible_assignment :: "inputs \<Rightarrow> combo list \<Rightarrow> bool" where
  "feasible_assignment inp alt =
     (length alt = NUM_TBS inp
      \<and> (\<forall>tb < NUM_TBS inp. alt ! tb \<in> set (combos inp)
             \<and> resonance (alt ! tb) \<ge> of_nat (min_reqs_per_tb inp ! tb))
      \<and> (\<forall>t1 < NUM_TBS inp. \<forall>t2 < NUM_TBS inp.
             t1 \<noteq> t2 \<longrightarrow> set (idxs (alt ! t1)) \<inter> set (idxs (alt ! t2)) = {})
      \<and> sum_list (map chips alt) \<le> total_chips_available inp)"

text \<open>Inventory \<open>{E: 2, R2: 2}\<close>, 9 chips, one TB with minimum 0.\<close>

definition scenario_E2_R2 :: inputs where
  "scenario_E2_R2 =
     \<lparr>NUM_TBS = 1, total_chips_available = 9,
      available_parts_input = (\<lambda>p. if p = E then 2 else if p = R2 then 2 else 0),
      minreq = (\<lambda>i. 0)\<rparr>"

text \<open>Three parts \<open>E\<close>, no chips, one TB with minimum 0.\<close>

definition scenario_no_chips :: inputs where
  "scenario_no_chips =
     \<lparr>NUM_TBS = 1, total_chips_available = 0,
      available_parts_input = (\<lambda>p. if p = E then 3 else 0),
      minreq = (\<lambda>i. 0)\<rparr>"

text \<open>Two parts \<open>E\<close>, one chip, one TB with minimum 0.\<close>

definition scenario_two_parts :: inputs where
  "scenario_two_parts =
     \<lparr>NUM_TBS = 1, total_chips_available = 1,
      available_parts_input = (\<lambda>p. if p = E then 2 else 0),
      minreq = (\<lambda>i. 0)\<rparr>"

text \<open>Three parts \<open>E\<close>, 90 chips, one TB with minimum 16000: more than three parts of
  the best type reach with the largest multiplier (15000), less than the bound of the
  validation (21500).\<close>

definition scenario_high_minimum :: inputs where
  "scenario_high_minimum =
     \<lparr>NUM_TBS = 1, total_chips_available = 90,
      available_parts_input = (\<lambda>p. if p = E then 3 else 0),
      minreq = (\<lambda>i. 16000)\<rparr>"

text \<open>In the first scenario: the parts \<open>E, E, R2\<close> at the indices 0, 1, 2 with the entry of
  cost 9 and multiplier 2.0.\<close>

definition group_E_E_R2 :: combo where
  "group_E_E_R2 = \<lparr>idxs = [0, 1, 2], parts = [E, E, R2], chips = 9, resonance = 5100\<rparr>"

text \<open>Inventory \<open>{E: 1, R4: 2, Y: 1}\<close>, 2 chips, one TB with minimum 0.\<close>

definition scenario_mixed_parts :: inputs where
  "scenario_mixed_parts =
     \<lparr>NUM_TBS = 1, total_chips_available = 2,
      available_parts_input = (\<lambda>p. if p = E then 1 else if p = R4 then 2 else if p = Y then 1
                                   else 0),
      minreq = (\<lambda>i. 0)\<rparr>"

text \<open>There: the parts \<open>E, R4, R4\<close> with the entry of cost 2, whose score is the double
  \<^verbatim>\<open>2700 * 1.4 = 3779.9999999999995\<close>, and the parts \<open>R4, R4, Y\<close> with the entry of cost 0.\<close>

definition group_E_R4_R4 :: combo where
  "group_E_R4_R4 =
     \<lparr>idxs = [0, 1, 2], parts = [E, R4, R4], chips = 2,
      resonance = 8312307905986559 / 2199023255552\<rparr>"

definition group_R4_R4_Y :: combo where
  "group_R4_R4_Y = \<lparr>idxs = [1, 2, 3], parts = [R4, R4, Y], chips = 0, resonance = 1750\<rparr>"

text \<open>Inventory \<open>{E: 2, R3: 1}\<close>, 2 chips, one TB with minimum 3780.\<close>

definition scenario_rounded_minimum :: inputs where
  "scenario_rounded_minimum =
     \<lparr>NUM_TBS = 1, total_chips_available = 2,
      available_parts_input = (\<lambda>p. if p = E then 2 else if p = R3 then 1 else 0),
      minreq = (\<lambda>i. 3780)\<rparr>"

text \<open>Six parts \<open>E\<close>, 2 chips, two TBs with the minimums 3500 and 3000.\<close>

definition scenario_two_TBs :: inputs where
  "scenario_two_TBs =
     \<lparr>NUM_TBS = 2, total_chips_available = 2,
      available_parts_input = (\<lambda>p. if p = E then 6 else 0),
      minreq = (\<lambda>i. if i = 0 then 3500 else 3000)\<rparr>"

text \<open>There: the first three and the last three parts, each with the entry of cost 1 and
  multiplier 1.2.\<close>

definition group_first_three :: combo where
  "group_first_three = \<lparr>idxs = [0, 1, 2], parts = [E, E, E], chips = 1, resonance = 3600\<rparr>"

definition group_last_three :: combo where
  "group_last_three = \<lparr>idxs = [3, 4, 5], parts = [E, E, E], chips = 1, resonance = 3600\<rparr>"

text \<open>Three parts \<open>E\<close> without chips: the entry of cost 0 and multiplier 1.0.\<close>

definition group_E_E_E_plain :: combo where
  "group_E_E_E_plain = \<lparr>idxs = [0, 1, 2], parts = [E, E, E], chips = 0, resonance = 3000\<rparr>"

text \<open>Three parts \<open>E\<close> with the last entry of the table: cost 90 and multiplier 5.0.\<close>

definition group_E_E_E_90_chips :: combo where
  "group_E_E_E_90_chips = \<lparr>idxs = [0, 1, 2], parts = [E, E, E], chips = 90, resonance = 15000\<rparr>"

text \<open>Three parts \<open>E\<close>, 90 chips, one TB with minimum 30000, above the bound of the
  validation.\<close>

definition scenario_impossible_minimum :: inputs where
  "scenario_impossible_minimum =
     \<lparr>NUM_TBS = 1, total_chips_available = 90,
      available_parts_input = (\<lambda>p. if p = E then 3 else 0),
      minreq = (\<lambda>i. 30000)\<rparr>"

section \<open>Values of the doubles\<close>

text \<open>The table with its doubles written out: \<^verbatim>\<open>1.2\<close> is \<open>5404319552844595 / 2 ^ 52\<close>, and so
  on.\<close>

lemma MULTIPLIER_DATA_values:
  "MULTIPLIER_DATA =
     [(0, 1), (1, 5404319552844595 / 4503599627370496),
      (2, 3152519739159347 / 2251799813685248), (4, 3602879701896397 / 2251799813685248),
      (6, 8106479329266893 / 4503599627370496), (9, 2),
      (12, 2476979795053773 / 1125899906842624), (16, 5404319552844595 / 2251799813685248),
      (20, 5854679515581645 / 2251799813685248), (25, 3152519739159347 / 1125899906842624),
      (30, 3), (36, 3602879701896397 / 1125899906842624),
      (42, 7656119366529843 / 2251799813685248), (48, 8106479329266893 / 2251799813685248),
      (54, 4278419646001971 / 1125899906842624), (60, 4),
      (66, 4728779608739021 / 1125899906842624), (72, 2476979795053773 / 562949953421312),
      (78, 2589569785738035 / 562949953421312), (84, 5404319552844595 / 1125899906842624),
      (90, 5)]"
  by code_simp

lemma maximum_multiplier: "maximum (map snd MULTIPLIER_DATA) = 5"
  by (simp add: MULTIPLIER_DATA_values)

lemma float_mul_values:
  "float_mul 4300 5 = 21500"
  "float_mul 2550 2 = 5100"
  "float_mul 3000 1 = 3000"
  "float_mul 3000 (5404319552844595 / 4503599627370496) = 3600"
  "float_mul 3000 5 = 15000"
  "float_mul 1750 1 = 1750"
  "float_mul 2700 (3152519739159347 / 2251799813685248) = 8312307905986559 / 2199023255552"
  by code_simp+

lemma float_add_values:
  "float_add 0 5100 = 5100"
  "float_add (float_add 0 3600) 3600 = 7200"
  by code_simp+

text \<open>
  Two selections for two TBs with 4 chips, each group with the multiplier \<^verbatim>\<open>1.4\<close>: twice the
  parts \<open>E, E, R4\<close>, or \<open>E, E, E\<close> and \<open>E, R4, R4\<close>. The sums of their scores differ by
  \<open>2 ^ -41\<close>, and the totals that the page would show are \<^verbatim>\<open>7979.999999999999\<close> and \<^verbatim>\<open>7980.0\<close>.
\<close>

lemma near_tie_totals:
  "float_add (float_add 0 (float_mul 2850 (3152519739159347 / 2251799813685248)))
             (float_mul 2850 (3152519739159347 / 2251799813685248))
   = 8774102789652479 / 1099511627776"
  "float_add (float_add 0 (float_mul 3000 (3152519739159347 / 2251799813685248)))
             (float_mul 2700 (3152519739159347 / 2251799813685248))
   = 7980"
  "float_mul 2850 (3152519739159347 / 2251799813685248)
     + float_mul 2850 (3152519739159347 / 2251799813685248)
   < float_mul 3000 (3152519739159347 / 2251799813685248)
     + float_mul 2700 (3152519739159347 / 2251799813685248)"
  "(8774102789652479 / 1099511627776 :: rat) < 7980"
  by code_simp+

lemma scores_2700_within_2_chips:
  "list_all (\<lambda>e. fst e \<le> 2 \<longrightarrow> float_mul 2700 (snd e) < 3780) MULTIPLIER_DATA"
  by code_simp

lemma multiplier_bounds: "e \<in> set MULTIPLIER_DATA \<Longrightarrow> 0 \<le> snd e \<and> snd e \<le> 5"
  by (auto simp: MULTIPLIER_DATA_values)

lemma multiplier_within_9_chips:
  "e \<in> set MULTIPLIER_DATA \<Longrightarrow> fst e \<le> 9 \<Longrightarrow> 0 \<le> snd e \<and> snd e \<le> 2"
  by (auto simp: MULTIPLIER_DATA_values)

lemma multiplier_within_2_chips:
  "e \<in> set MULTIPLIER_DATA \<Longrightarrow> fst e \<le> 2 \<Longrightarrow> 0 \<le> snd e \<and> 5 * snd e \<le> 5 + of_nat (fst e)"
  by (auto simp: MULTIPLIER_DATA_values)

text \<open>Rounding never crosses an integer: a value below \<open>2 ^ 53\<close> that is at most an integer
  is rounded to a double that is at most that integer.\<close>

lemma floor_log2_le: "(n::int) < 2 ^ Suc k \<Longrightarrow> floor_log2 n \<le> k"
proof (induction k arbitrary: n)
  case 0
  then show ?case by (simp add: floor_log2.simps[of n])
next
  case (Suc k)
  show ?case
  proof (cases "n < 2")
    case True
    then show ?thesis by (simp add: floor_log2.simps[of n])
  next
    case False
    have "n div 2 < 2 ^ Suc k" using Suc.prems by simp
    then have "floor_log2 (n div 2) \<le> k" by (rule Suc.IH)
    then show ?thesis using False by (simp add: floor_log2.simps[of n])
  qed
qed

lemma round_half_even_le_int: "q \<le> of_int n \<Longrightarrow> round_half_even q \<le> n"
proof (cases "q = of_int n")
  case True
  then show ?thesis by (simp add: round_half_even_def Let_def)
next
  case False
  assume "q \<le> of_int n"
  then have "q < of_int n" using False by simp
  then have "\<lfloor>q\<rfloor> < n" by (simp add: floor_less_iff)
  moreover have "round_half_even q \<le> \<lfloor>q\<rfloor> + 1" by (simp add: round_half_even_def Let_def)
  ultimately show ?thesis by linarith
qed

lemma round_double_le_int:
  assumes "x < 2 ^ 53" and "x \<le> of_int n"
  shows "round_double x \<le> of_int n"
proof (cases "x < 1")
  case True
  then show ?thesis using assms(2) by (simp add: round_double_def)
next
  case False
  define e where "e = floor_log2 \<lfloor>x\<rfloor>"
  have "\<lfloor>x\<rfloor> < 2 ^ 53" using assms(1) by (simp add: floor_less_iff)
  then have "\<lfloor>x\<rfloor> < 2 ^ Suc 52" by simp
  then have e: "e \<le> 52" unfolding e_def by (rule floor_log2_le)
  define k where "k = 52 - e"
  have r: "round_double x = of_int (round_half_even (x * 2 ^ k)) / 2 ^ k"
    using False e by (simp add: round_double_def Let_def e_def k_def)
  have "x * 2 ^ k \<le> of_int (n * 2 ^ k)" using assms(2) by simp
  then have "round_half_even (x * 2 ^ k) \<le> n * 2 ^ k" by (rule round_half_even_le_int)
  then have "(of_int (round_half_even (x * 2 ^ k)) :: rat) \<le> of_int (n * 2 ^ k)"
    by (simp only: of_int_le_iff)
  then have "(of_int (round_half_even (x * 2 ^ k)) :: rat) \<le> of_int n * 2 ^ k" by simp
  then show ?thesis unfolding r by (simp add: pos_divide_le_eq)
qed

text \<open>A product of a base value of at most 3000 and a multiplier of the table, rounded, is
  at most every integer that bounds the exact product.\<close>

lemma float_mul_le_int:
  assumes "b \<le> 3000" and "0 \<le> m" and "m \<le> 5" and "of_nat b * m \<le> of_int n"
  shows "float_mul (of_nat b) m \<le> of_int n"
proof -
  have "(of_nat b :: rat) \<le> of_nat 3000" using assms(1) by (simp only: of_nat_le_iff)
  then have "of_nat b * m \<le> of_nat 3000 * 5"
    using assms(2,3) by (intro mult_mono) simp_all
  then have "of_nat b * m < 2 ^ 53" by simp
  then show ?thesis unfolding float_mul_def using assms(4) by (rule round_double_le_int)
qed

section \<open>Properties of the candidate generator\<close>

lemma length_combinations: "length (combinations k xs) = length xs choose k"
  by (induction k xs rule: combinations.induct) simp_all

lemma combinations_length: "ys \<in> set (combinations k xs) \<Longrightarrow> length ys = k"
  by (induction k xs arbitrary: ys rule: combinations.induct) auto

lemma combinations_set: "ys \<in> set (combinations k xs) \<Longrightarrow> set ys \<subseteq> set xs"
proof (induction k xs arbitrary: ys rule: combinations.induct)
  case (3 k x xs)
  from 3(3) consider zs where "ys = x # zs" "zs \<in> set (combinations k xs)"
    | "ys \<in> set (combinations (Suc k) xs)" by auto
  then show ?case
  proof cases
    case 1
    then show ?thesis using 3(1)[of zs] by auto
  next
    case 2
    then show ?thesis using 3(2)[of ys] by auto
  qed
qed simp_all

lemma combinations_sorted:
  "sorted_wrt (<) xs \<Longrightarrow> ys \<in> set (combinations k xs) \<Longrightarrow> sorted_wrt (<) (ys::nat list)"
proof (induction k xs arbitrary: ys rule: combinations.induct)
  case (3 k x xs)
  from 3(4) consider zs where "ys = x # zs" "zs \<in> set (combinations k xs)"
    | "ys \<in> set (combinations (Suc k) xs)" by auto
  then show ?case
  proof cases
    case 1
    have "sorted_wrt (<) zs" using 3(1)[of zs] 3(3) 1 by simp
    moreover have "\<forall>z\<in>set zs. x < z" using combinations_set[OF 1(2)] 3(3) by auto
    ultimately show ?thesis using 1 by simp
  next
    case 2
    then show ?thesis using 3(2)[of ys] 3(3) by simp
  qed
qed simp_all

lemma combinations_distinct:
  "distinct xs \<Longrightarrow> distinct (combinations k xs)"
proof (induction k xs rule: combinations.induct)
  case (3 k x xs)
  have "x # zs \<notin> set (combinations (Suc k) xs)" for zs
    using combinations_set[of "x # zs" "Suc k" xs] 3(3) by auto
  then have "set (map ((#) x) (combinations k xs)) \<inter> set (combinations (Suc k) xs) = {}"
    by auto
  moreover have "distinct (map ((#) x) (combinations k xs))"
    using 3 by (simp add: distinct_map)
  ultimately show ?case using 3 by simp
qed simp_all

lemma combinations_complete:
  "sorted_wrt (<) xs \<Longrightarrow> sorted_wrt (<) ys \<Longrightarrow> set ys \<subseteq> set xs \<Longrightarrow> length ys = k
   \<Longrightarrow> ys \<in> set (combinations k (xs::nat list))"
proof (induction k xs arbitrary: ys rule: combinations.induct)
  case (1 xs)
  then show ?case by simp
next
  case (2 k)
  then show ?case by simp
next
  case (3 k x xs)
  obtain y ys' where ys: "ys = y # ys'" using 3(6) by (cases ys) auto
  have sx: "sorted_wrt (<) xs" and xlt: "\<forall>z\<in>set xs. x < z" using 3(3) by auto
  have sy: "sorted_wrt (<) ys'" and ylt: "\<forall>z\<in>set ys'. y < z" using 3(4) ys by auto
  show ?case
  proof (cases "y = x")
    case True
    have "set ys' \<subseteq> set xs" using 3(5) ys True ylt by auto
    moreover have "length ys' = k" using 3(6) ys by simp
    ultimately have "ys' \<in> set (combinations k xs)" using 3(1)[OF sx sy] by simp
    then show ?thesis using ys True by simp
  next
    case False
    have yin: "y \<in> set xs" using 3(5) ys False by auto
    have "z \<noteq> x" if "z \<in> set ys'" for z using that ylt xlt yin by fastforce
    then have "set ys \<subseteq> set xs" using 3(5) ys yin by auto
    then have "ys \<in> set (combinations (Suc k) xs)" using 3(2)[OF sx 3(4)] 3(6) by simp
    then show ?thesis by simp
  qed
qed

section \<open>The input gate\<close>

lemma solve_button_gate_only:
  "input_issues inp \<noteq> [] \<Longrightarrow> solve_button inp out \<longleftrightarrow> out = Fix_input_issues"
  by (auto intro: solve_button.intros elim: solve_button.cases)

lemma length_part_instance_list:
  "length (part_instance_list inp)
   = sum_list (map (available_parts_input inp) (map fst PART_BASE_VALUES))"
  by (simp add: part_instance_list_def length_concat comp_def)

lemma sum_base_values: "sum_list (map base_value (map fst PART_BASE_VALUES)) = 4300"
  by (simp add: PART_BASE_VALUES_def base_value_def)

lemma threshold_check:
  "(of_nat x > float_mul (of_nat (sum_list (map base_value (map fst PART_BASE_VALUES))))
                         (maximum (map snd MULTIPLIER_DATA))) = (21500 < x)"
proof -
  have "float_mul (of_nat 4300) 5 = of_nat 21500" by (simp add: float_mul_values)
  then show ?thesis
    unfolding sum_base_values maximum_multiplier by (simp only: of_nat_less_iff)
qed

lemma impossibly_high_iff:
  "''One or more minimum resonance requirements are impossibly high.'' \<in> set (input_issues inp)
   \<longleftrightarrow> (\<exists>tb < NUM_TBS inp. 21500 < minreq inp tb)"
  unfolding input_issues_def threshold_check
  by (auto simp: list_ex_iff min_reqs_per_tb_def)

lemma part_instance_list_two_parts: "part_instance_list scenario_two_parts = [E, E]"
  by (simp add: part_instance_list_def scenario_two_parts_def PART_BASE_VALUES_def numeral_2_eq_2)

lemma input_issues_high_minimum: "input_issues scenario_high_minimum = []"
proof -
  have "\<not> (\<exists>tb < NUM_TBS scenario_high_minimum. 21500 < minreq scenario_high_minimum tb)"
    by (simp add: scenario_high_minimum_def)
  then have "''One or more minimum resonance requirements are impossibly high.''
               \<notin> set (input_issues scenario_high_minimum)"
    by (simp only: impossibly_high_iff not_False_eq_True)
  moreover have "sum_list (map (available_parts_input scenario_high_minimum) (map fst PART_BASE_VALUES)) = 3"
    by (simp add: scenario_high_minimum_def PART_BASE_VALUES_def)
  ultimately show ?thesis
    by (simp add: input_issues_def PARTS_PER_TB_def split: if_splits)
      (simp add: scenario_high_minimum_def)
qed

text \<open>
  Claim C8, as the code has it. When the inventory expands to fewer than three part
  instances per TB, the validation records the missing-parts issue and the handler shows the
  input-issue error and nothing else: the program is neither built nor solved, and no
  assignment is shown.
\<close>

theorem too_few_parts_rejected:
  "length (part_instance_list inp) < 3 * NUM_TBS inp \<Longrightarrow>
     ''Not enough parts to fill all TBs.'' \<in> set (input_issues inp)
     \<and> solve_button inp Fix_input_issues
     \<and> (\<forall>out. solve_button inp out \<longrightarrow> out = Fix_input_issues)"
proof -
  assume "length (part_instance_list inp) < 3 * NUM_TBS inp"
  then have m: "''Not enough parts to fill all TBs.'' \<in> set (input_issues inp)"
    by (simp add: input_issues_def length_part_instance_list PARTS_PER_TB_def)
  then have "input_issues inp \<noteq> []" by auto
  then show ?thesis using m solve_button_gate_only by blast
qed

theorem too_few_parts_rejected_witness:
  "length (part_instance_list scenario_two_parts) < 3 * NUM_TBS scenario_two_parts
   \<and> ''Not enough parts to fill all TBs.'' \<in> set (input_issues scenario_two_parts)
   \<and> solve_button scenario_two_parts Fix_input_issues"
proof -
  have h: "length (part_instance_list scenario_two_parts) < 3 * NUM_TBS scenario_two_parts"
    by (simp add: part_instance_list_two_parts) (simp add: scenario_two_parts_def)
  show ?thesis using h too_few_parts_rejected [OF h] by simp
qed

text \<open>
  With two parts and one TB the handler stops at the gate: its outcome is the input-issue
  error, and it is not the error shown when the solver finds no configuration.
\<close>

theorem too_few_parts_counterexample:
  "length (part_instance_list scenario_two_parts) < 3 * NUM_TBS scenario_two_parts
   \<and> solve_button scenario_two_parts Fix_input_issues
   \<and> \<not> solve_button scenario_two_parts No_valid_configuration"
proof -
  have h: "length (part_instance_list scenario_two_parts) < 3 * NUM_TBS scenario_two_parts"
    by (simp add: part_instance_list_two_parts) (simp add: scenario_two_parts_def)
  then have "input_issues scenario_two_parts \<noteq> []"
    by (simp add: input_issues_def length_part_instance_list PARTS_PER_TB_def)
  then show ?thesis using h solve_button_gate_only by simp
qed

lemma length_combos_of: "length (combos_of pil is) = length MULTIPLIER_DATA"
  by (simp add: combos_of_def Let_def)

lemma length_combos:
  "length (combos inp)
   = (length (part_instance_list inp) choose PARTS_PER_TB) * length MULTIPLIER_DATA"
  by (simp add: combos_def length_concat comp_def length_combos_of sum_list_triv
      length_combinations)

lemma in_combos_iff:
  "c \<in> set (combos inp) \<longleftrightarrow>
     (\<exists>is \<in> set (combinations PARTS_PER_TB [0..<length (part_instance_list inp)]).
        \<exists>e \<in> set MULTIPLIER_DATA.
          c = \<lparr>idxs = is, parts = map (\<lambda>i. part_instance_list inp ! i) is, chips = fst e,
               resonance = float_mul (of_nat (sum_list (map base_value
                                         (map (\<lambda>i. part_instance_list inp ! i) is))))
                                     (snd e)\<rparr>)"
  by (auto simp: combos_def combos_of_def Let_def case_prod_beta)

lemma distinct_multiplier_costs: "distinct (map fst MULTIPLIER_DATA)"
  by (simp add: MULTIPLIER_DATA_def)

lemma multiplier_lookup:
  "e \<in> set MULTIPLIER_DATA \<Longrightarrow> map_of MULTIPLIER_DATA (fst e) = Some (snd e)"
  using distinct_multiplier_costs by (cases e) simp

lemma combos_keys:
  "map (\<lambda>c. (idxs c, chips c)) (combos inp)
   = List.product (combinations PARTS_PER_TB [0..<length (part_instance_list inp)])
                  (map fst MULTIPLIER_DATA)"
  by (simp add: combos_def combos_of_def product_concat_map map_concat comp_def Let_def
      case_prod_beta)

lemma distinct_combos_keys: "distinct (map (\<lambda>c. (idxs c, chips c)) (combos inp))"
  unfolding combos_keys
  by (intro distinct_product combinations_distinct distinct_multiplier_costs) simp

lemma combos_idxs:
  assumes "c \<in> set (combos inp)"
  shows "length (idxs c) = PARTS_PER_TB" and "sorted_wrt (<) (idxs c)"
    and "set (idxs c) \<subseteq> {0..<length (part_instance_list inp)}"
proof -
  from assms obtain "is" where
    "is \<in> set (combinations PARTS_PER_TB [0..<length (part_instance_list inp)])" "idxs c = is"
    unfolding in_combos_iff by auto
  then show "length (idxs c) = PARTS_PER_TB" and "sorted_wrt (<) (idxs c)"
    and "set (idxs c) \<subseteq> {0..<length (part_instance_list inp)}"
    using combinations_length combinations_sorted[of "[0..<length (part_instance_list inp)]"]
      combinations_set[of "is" PARTS_PER_TB "[0..<length (part_instance_list inp)]"]
    by auto
qed

lemma combos_one_per_subset:
  assumes S: "S \<subseteq> {0..<length (part_instance_list inp)}" "card S = PARTS_PER_TB"
    and e: "e \<in> set MULTIPLIER_DATA"
  shows "\<exists>!j. j < length (combos inp) \<and> set (idxs (combos inp ! j)) = S
               \<and> chips (combos inp ! j) = fst e"
proof -
  let ?g = "\<lambda>c. (idxs c, chips c)"
  have fin: "finite S" using S(1) finite_subset by blast
  define js where "js = sorted_list_of_set S"
  have js: "sorted_wrt (<) js" "set js = S" "length js = PARTS_PER_TB"
    using fin S(2) by (simp_all add: js_def strict_sorted_iff)
  have "js \<in> set (combinations PARTS_PER_TB [0..<length (part_instance_list inp)])"
    using js S(1) by (intro combinations_complete) auto
  then have "(js, fst e) \<in> set (map ?g (combos inp))"
    unfolding combos_keys using e by auto
  then obtain j where j: "j < length (combos inp)" "?g (combos inp ! j) = (js, fst e)"
    by (auto simp: in_set_conv_nth)
  show ?thesis
  proof (rule ex1I[of _ j])
    show "j < length (combos inp) \<and> set (idxs (combos inp ! j)) = S
          \<and> chips (combos inp ! j) = fst e"
      using j js by auto
  next
    fix j' assume j': "j' < length (combos inp) \<and> set (idxs (combos inp ! j')) = S
          \<and> chips (combos inp ! j') = fst e"
    then have "sorted_wrt (<) (idxs (combos inp ! j'))"
      using combos_idxs(2) nth_mem by blast
    then have "idxs (combos inp ! j') = js"
      using j' js(1,2) by (intro sorted_distinct_set_unique) (auto simp: strict_sorted_iff)
    then have "map ?g (combos inp) ! j' = map ?g (combos inp) ! j"
      using j j' by simp
    then show "j' = j"
      using distinct_combos_keys[of inp] j j' by (simp add: nth_eq_iff_index_eq del: nth_map)
  qed
qed

lemma part_instance_list_E2_R2: "part_instance_list scenario_E2_R2 = [E, E, R2, R2]"
  by (simp add: part_instance_list_def scenario_E2_R2_def PART_BASE_VALUES_def numeral_2_eq_2)

lemma base_value_simps:
  "base_value E = 1000" "base_value R4 = 850" "base_value R3 = 700" "base_value R2 = 550"
  "base_value R1 = 400" "base_value R = 300" "base_value Y3 = 200" "base_value Y2 = 150"
  "base_value Y1 = 100" "base_value Y = 50"
  by (simp_all add: base_value_def PART_BASE_VALUES_def)

lemma group_E_E_R2_in_combos: "group_E_E_R2 \<in> set (combos scenario_E2_R2)"
proof -
  have "[0, 1, 2] \<in> set (combinations PARTS_PER_TB
                            [0..<length (part_instance_list scenario_E2_R2)])"
    by (intro combinations_complete) (auto simp: PARTS_PER_TB_def part_instance_list_E2_R2)
  moreover have "(9, 2) \<in> set MULTIPLIER_DATA" by (simp add: MULTIPLIER_DATA_values)
  moreover have "group_E_E_R2
     = \<lparr>idxs = [0, 1, 2], parts = map (\<lambda>i. part_instance_list scenario_E2_R2 ! i) [0, 1, 2],
        chips = fst (9::nat, 2::rat),
        resonance = float_mul (of_nat (sum_list (map base_value
                       (map (\<lambda>i. part_instance_list scenario_E2_R2 ! i) [0, 1, 2]))))
                    (snd (9::nat, 2::rat))\<rparr>"
    by (simp add: group_E_E_R2_def part_instance_list_E2_R2 base_value_simps float_mul_values)
  ultimately show ?thesis unfolding in_combos_iff by blast
qed

lemma count_list_replicate: "count_list (replicate n x) y = (if x = y then n else 0)"
  by (induction n) auto

lemma count_part_instance_list:
  "count_list (part_instance_list inp) p = available_parts_input inp p"
  by (cases p) (simp_all add: part_instance_list_def PART_BASE_VALUES_def count_list_replicate)

lemma part_instance_list_mixed_parts: "part_instance_list scenario_mixed_parts = [E, R4, R4, Y]"
  by (simp add: part_instance_list_def scenario_mixed_parts_def PART_BASE_VALUES_def
      numeral_2_eq_2)

lemma group_E_R4_R4_in_combos: "group_E_R4_R4 \<in> set (combos scenario_mixed_parts)"
proof -
  have "[0, 1, 2] \<in> set (combinations PARTS_PER_TB
                            [0..<length (part_instance_list scenario_mixed_parts)])"
    by (intro combinations_complete)
      (auto simp: PARTS_PER_TB_def part_instance_list_mixed_parts)
  moreover have "(2, 3152519739159347 / 2251799813685248) \<in> set MULTIPLIER_DATA"
    by (simp add: MULTIPLIER_DATA_values)
  moreover have "group_E_R4_R4
     = \<lparr>idxs = [0, 1, 2],
        parts = map (\<lambda>i. part_instance_list scenario_mixed_parts ! i) [0, 1, 2],
        chips = fst (2::nat, 3152519739159347 / 2251799813685248 :: rat),
        resonance = float_mul (of_nat (sum_list (map base_value
                       (map (\<lambda>i. part_instance_list scenario_mixed_parts ! i) [0, 1, 2]))))
                    (snd (2::nat, 3152519739159347 / 2251799813685248 :: rat))\<rparr>"
    by (simp add: group_E_R4_R4_def part_instance_list_mixed_parts base_value_simps
        float_mul_values)
  ultimately show ?thesis unfolding in_combos_iff by blast
qed

lemma group_R4_R4_Y_in_combos: "group_R4_R4_Y \<in> set (combos scenario_mixed_parts)"
proof -
  have "[1, 2, 3] \<in> set (combinations PARTS_PER_TB
                            [0..<length (part_instance_list scenario_mixed_parts)])"
    by (intro combinations_complete)
      (auto simp: PARTS_PER_TB_def part_instance_list_mixed_parts)
  moreover have "(0, 1) \<in> set MULTIPLIER_DATA"
    by (simp add: MULTIPLIER_DATA_values)
  moreover have "group_R4_R4_Y
     = \<lparr>idxs = [1, 2, 3],
        parts = map (\<lambda>i. part_instance_list scenario_mixed_parts ! i) [1, 2, 3],
        chips = fst (0::nat, 1::rat),
        resonance = float_mul (of_nat (sum_list (map base_value
                       (map (\<lambda>i. part_instance_list scenario_mixed_parts ! i) [1, 2, 3]))))
                    (snd (0::nat, 1::rat))\<rparr>"
    by (simp add: group_R4_R4_Y_def part_instance_list_mixed_parts base_value_simps
        float_mul_values)
  ultimately show ?thesis unfolding in_combos_iff by blast
qed

text \<open>The score of \<open>E, R4, R4\<close> with 2 chips is not the exact product: it is the double
  below 3780, which the page prints truncated, as 3779.\<close>

lemma resonance_group_E_R4_R4:
  "resonance group_E_R4_R4 < 3780"
  "\<lfloor>resonance group_E_R4_R4\<rfloor> = 3779"
  "resonance group_E_R4_R4 \<noteq> 2700 * (3152519739159347 / 2251799813685248)"
  by (simp_all add: group_E_R4_R4_def floor_eq_iff)

text \<open>
  Claim C2. The inventory expands to one part instance of a type for every unit of its
  count, so to \<open>N\<close> instances when the counts add up to \<open>N\<close>, and the base values are those
  of the table of the script. With \<open>N\<close> instances the generator produces \<open>C(N,3)\<close> times the
  size of the multiplier table candidates, exactly one for every 3-element set of instance
  indices and every table entry. Every candidate has three increasing indices of the
  instance list and holds the part types found there, and its resonance is the product, as
  Python computes it on floats, of the sum of the base values of its three parts and the
  multiplier that the table gives for its chips.
\<close>

theorem candidate_generator:
  "(\<forall>p. count_list (part_instance_list inp) p = available_parts_input inp p)
   \<and> length (part_instance_list inp)
     = sum_list (map (available_parts_input inp) [E, R4, R3, R2, R1, R, Y3, Y2, Y1, Y])
   \<and> map base_value [E, R4, R3, R2, R1, R, Y3, Y2, Y1, Y]
     = [1000, 850, 700, 550, 400, 300, 200, 150, 100, 50]
   \<and> length (combos inp)
     = (length (part_instance_list inp) choose 3) * length MULTIPLIER_DATA
   \<and> (\<forall>S e. S \<subseteq> {0..<length (part_instance_list inp)} \<and> card S = 3
              \<and> e \<in> set MULTIPLIER_DATA
         \<longrightarrow> (\<exists>!j. j < length (combos inp) \<and> set (idxs (combos inp ! j)) = S
                     \<and> chips (combos inp ! j) = fst e))
   \<and> (\<forall>c \<in> set (combos inp).
         length (idxs c) = 3 \<and> sorted_wrt (<) (idxs c)
         \<and> set (idxs c) \<subseteq> {0..<length (part_instance_list inp)}
         \<and> parts c = map (\<lambda>i. part_instance_list inp ! i) (idxs c)
         \<and> (\<exists>mult. map_of MULTIPLIER_DATA (chips c) = Some mult
                \<and> resonance c
                  = float_mul (of_nat (sum_list (map base_value (parts c)))) mult))"
proof (intro conjI allI impI ballI)
  show "count_list (part_instance_list inp) p = available_parts_input inp p" for p
    by (rule count_part_instance_list)
  show "length (part_instance_list inp)
     = sum_list (map (available_parts_input inp) [E, R4, R3, R2, R1, R, Y3, Y2, Y1, Y])"
    by (simp add: length_part_instance_list PART_BASE_VALUES_def)
  show "map base_value [E, R4, R3, R2, R1, R, Y3, Y2, Y1, Y]
     = [1000, 850, 700, 550, 400, 300, 200, 150, 100, 50]"
    by (simp add: base_value_simps)
  show "length (combos inp)
     = (length (part_instance_list inp) choose 3) * length MULTIPLIER_DATA"
    using length_combos[of inp] by (simp add: PARTS_PER_TB_def)
next
  fix S e
  assume "S \<subseteq> {0..<length (part_instance_list inp)} \<and> card S = 3 \<and> e \<in> set MULTIPLIER_DATA"
  then show "\<exists>!j. j < length (combos inp) \<and> set (idxs (combos inp ! j)) = S
                     \<and> chips (combos inp ! j) = fst e"
    using combos_one_per_subset[of S inp e] by (simp add: PARTS_PER_TB_def)
next
  fix c assume c: "c \<in> set (combos inp)"
  then show "length (idxs c) = 3" using combos_idxs(1) by (simp add: PARTS_PER_TB_def)
  show "sorted_wrt (<) (idxs c)" using c by (rule combos_idxs(2))
  show "set (idxs c) \<subseteq> {0..<length (part_instance_list inp)}" using c by (rule combos_idxs(3))
  from c obtain js e where e: "e \<in> set MULTIPLIER_DATA"
    and ceq: "c = \<lparr>idxs = js, parts = map (\<lambda>i. part_instance_list inp ! i) js, chips = fst e,
               resonance = float_mul (of_nat (sum_list (map base_value
                                         (map (\<lambda>i. part_instance_list inp ! i) js))))
                                     (snd e)\<rparr>"
    unfolding in_combos_iff by blast
  show "parts c = map (\<lambda>i. part_instance_list inp ! i) (idxs c)" using ceq by simp
  show "\<exists>mult. map_of MULTIPLIER_DATA (chips c) = Some mult
                \<and> resonance c = float_mul (of_nat (sum_list (map base_value (parts c)))) mult"
    using multiplier_lookup[OF e] ceq by simp
qed

theorem candidate_generator_witness:
  "count_list (part_instance_list scenario_mixed_parts) Y = 1
   \<and> length (combos scenario_mixed_parts) = 84
   \<and> group_E_R4_R4 \<in> set (combos scenario_mixed_parts)
   \<and> parts group_E_R4_R4
     = map (\<lambda>i. part_instance_list scenario_mixed_parts ! i) (idxs group_E_R4_R4)
   \<and> map_of MULTIPLIER_DATA (chips group_E_R4_R4)
     = Some (3152519739159347 / 2251799813685248)
   \<and> resonance group_E_R4_R4
     = float_mul (of_nat (sum_list (map base_value (parts group_E_R4_R4))))
                 (3152519739159347 / 2251799813685248)
   \<and> group_R4_R4_Y \<in> set (combos scenario_mixed_parts)
   \<and> map_of MULTIPLIER_DATA (chips group_R4_R4_Y) = Some 1
   \<and> resonance group_R4_R4_Y
     = float_mul (of_nat (sum_list (map base_value (parts group_R4_R4_Y)))) 1
   \<and> {1, 2, 3} \<subseteq> {0..<length (part_instance_list scenario_mixed_parts)}
   \<and> card {1, 2, 3 :: nat} = 3
   \<and> (0, 1) \<in> set MULTIPLIER_DATA
   \<and> (\<exists>!j. j < length (combos scenario_mixed_parts)
             \<and> set (idxs (combos scenario_mixed_parts ! j)) = {1, 2, 3}
             \<and> chips (combos scenario_mixed_parts ! j) = 0)"
proof -
  have n: "length (part_instance_list scenario_mixed_parts) = 4"
    by (simp add: part_instance_list_mixed_parts)
  have ch: "(4::nat) choose 3 = 4" by (simp add: binomial_fact_lemma numeral_eq_Suc)
  have len: "length MULTIPLIER_DATA = 21" by (simp add: MULTIPLIER_DATA_def)
  have h: "{1, 2, 3} \<subseteq> {0..<length (part_instance_list scenario_mixed_parts)}
           \<and> card {1, 2, 3 :: nat} = 3 \<and> (0, 1) \<in> set MULTIPLIER_DATA"
    by (simp add: n MULTIPLIER_DATA_values)
  have m1: "map_of MULTIPLIER_DATA (chips group_E_R4_R4)
            = Some (3152519739159347 / 2251799813685248)"
    by (simp add: MULTIPLIER_DATA_values group_E_R4_R4_def)
  have m2: "map_of MULTIPLIER_DATA (chips group_R4_R4_Y) = Some 1"
    by (simp add: MULTIPLIER_DATA_values group_R4_R4_Y_def)
  note g = candidate_generator [of scenario_mixed_parts]
  note g1 = g [THEN conjunct1, rule_format, of Y]
  note g4 = g [THEN conjunct2, THEN conjunct2, THEN conjunct2, THEN conjunct1]
  note g5 = g [THEN conjunct2, THEN conjunct2, THEN conjunct2, THEN conjunct2, THEN conjunct1,
                rule_format, of "{1, 2, 3}" "(0, 1)"]
  note g6 = g [THEN conjunct2, THEN conjunct2, THEN conjunct2, THEN conjunct2, THEN conjunct2,
                rule_format]
  have c1: "count_list (part_instance_list scenario_mixed_parts) Y = 1"
    using g1 by (simp add: scenario_mixed_parts_def)
  have c2: "length (combos scenario_mixed_parts) = 84" using g4 n ch len by simp
  have c3: "\<exists>!j. j < length (combos scenario_mixed_parts)
             \<and> set (idxs (combos scenario_mixed_parts ! j)) = {1, 2, 3}
             \<and> chips (combos scenario_mixed_parts ! j) = 0"
    using g5 [OF h] by simp
  from g6 [OF group_E_R4_R4_in_combos] obtain mult1 where
    p1: "parts group_E_R4_R4
         = map (\<lambda>i. part_instance_list scenario_mixed_parts ! i) (idxs group_E_R4_R4)"
    and l1: "map_of MULTIPLIER_DATA (chips group_E_R4_R4) = Some mult1"
    and r1: "resonance group_E_R4_R4
             = float_mul (of_nat (sum_list (map base_value (parts group_E_R4_R4)))) mult1"
    by blast
  have "mult1 = 3152519739159347 / 2251799813685248"
    using l1 m1 by (simp only: option.inject)
  then have c4: "parts group_E_R4_R4
     = map (\<lambda>i. part_instance_list scenario_mixed_parts ! i) (idxs group_E_R4_R4)
   \<and> resonance group_E_R4_R4
     = float_mul (of_nat (sum_list (map base_value (parts group_E_R4_R4))))
                 (3152519739159347 / 2251799813685248)"
    using p1 r1 by (simp only: simp_thms)
  from g6 [OF group_R4_R4_Y_in_combos] obtain mult2 where
    l2: "map_of MULTIPLIER_DATA (chips group_R4_R4_Y) = Some mult2"
    and r2: "resonance group_R4_R4_Y
             = float_mul (of_nat (sum_list (map base_value (parts group_R4_R4_Y)))) mult2"
    by blast
  have "mult2 = 1" using l2 m2 by (simp only: option.inject)
  then have c5: "resonance group_R4_R4_Y
     = float_mul (of_nat (sum_list (map base_value (parts group_R4_R4_Y)))) 1"
    using r2 by (simp only: simp_thms)
  show ?thesis
    using c1 c2 c3 c4 c5 h m1 m2 group_E_R4_R4_in_combos group_R4_R4_Y_in_combos by blast
qed

section \<open>The linear program and assignments\<close>

lemma min_reqs_nth: "tb < NUM_TBS inp \<Longrightarrow> min_reqs_per_tb inp ! tb = minreq inp tb"
  by (simp add: min_reqs_per_tb_def)

lemma set_x_keys:
  "set (x_keys inp)
   = {k. snd k < NUM_TBS inp \<and> fst k < length (combos inp)
         \<and> of_nat (minreq inp (snd k)) \<le> resonance (combos inp ! fst k)}"
  by (auto simp: x_keys_def min_reqs_nth)

lemma distinct_concat_pairs:
  "distinct ts \<Longrightarrow> (\<And>t. distinct (f t))
   \<Longrightarrow> distinct (concat (map (\<lambda>t. map (\<lambda>c. (c, t)) (f t)) ts))"
  by (induction ts) (auto simp: distinct_map inj_on_def)

lemma distinct_x_keys: "distinct (x_keys inp)"
  unfolding x_keys_def by (rule distinct_concat_pairs) simp_all

lemma affine_value_ones:
  "distinct ks \<Longrightarrow> affine_value v (map (\<lambda>k. (k, 1)) (filter P ks)) = sum v {k \<in> set ks. P k}"
  by (simp add: affine_value_def comp_def sum_list_distinct_conv_sum_set)

lemma affine_value_coef:
  "distinct ks \<Longrightarrow> affine_value v (map (\<lambda>(c, t). ((c, t), g c)) ks)
                    = sum (\<lambda>k. g (fst k) * v k) (set ks)"
  by (simp add: affine_value_def comp_def case_prod_beta sum_list_distinct_conv_sum_set)

lemma objective_value:
  "affine_value v (objective (TB_Resonance_Max inp))
   = sum (\<lambda>k. resonance (combos inp ! fst k) * v k) (set (x_keys inp))"
  by (simp add: TB_Resonance_Max_def affine_value_coef distinct_x_keys)

lemma feasible_iff:
  "feasible (TB_Resonance_Max inp) v \<longleftrightarrow>
     (\<forall>k \<in> set (x_keys inp). v k = 0 \<or> v k = 1)
     \<and> (\<forall>tb < NUM_TBS inp. sum v {k \<in> set (x_keys inp). snd k = tb} = 1)
     \<and> (\<forall>i < length (part_instance_list inp).
           sum v {k \<in> set (x_keys inp). i \<in> set (idxs (combos inp ! fst k))} \<le> 1)
     \<and> sum (\<lambda>k. of_nat (chips (combos inp ! fst k)) * v k) (set (x_keys inp))
         \<le> of_nat (total_chips_available inp)"
  by (auto simp: feasible_def TB_Resonance_Max_def list_all_iff satisfies_def
      affine_value_ones affine_value_coef distinct_x_keys case_prod_beta ball_Un)

lemma binary_sum:
  assumes "finite A" and "\<forall>k \<in> A. v k = 0 \<or> v k = (1::rat)"
  shows "(\<Sum>k \<in> A. g k * v k) = sum g {k \<in> A. v k = 1}"
proof -
  have "(\<Sum>k \<in> A. g k * v k) = (\<Sum>k \<in> A. if v k = 1 then g k else 0)"
    by (rule sum.cong) (use assms in auto)
  also have "\<dots> = sum g {k \<in> A. v k = 1}"
    using assms(1) by (simp add: sum.inter_filter)
  finally show ?thesis .
qed

lemma selection_sum:
  assumes bin: "\<forall>k \<in> set (x_keys inp). v k = 0 \<or> v k = (1::rat)"
    and sel: "{k \<in> set (x_keys inp). v k = 1} = (\<lambda>tb. (sel tb, tb)) ` {0..<NUM_TBS inp}"
  shows "(\<Sum>k \<in> set (x_keys inp). g k * v k) = (\<Sum>tb = 0..<NUM_TBS inp. g (sel tb, tb))"
proof -
  have "(\<Sum>k \<in> set (x_keys inp). g k * v k) = sum g {k \<in> set (x_keys inp). v k = 1}"
    using bin by (intro binary_sum) auto
  also have "\<dots> = sum g ((\<lambda>tb. (sel tb, tb)) ` {0..<NUM_TBS inp})"
    by (simp only: sel)
  also have "\<dots> = (\<Sum>tb = 0..<NUM_TBS inp. g (sel tb, tb))"
    by (subst sum.reindex) (auto simp: inj_on_def)
  finally show ?thesis .
qed

lemma selection_count:
  assumes bin: "\<forall>k \<in> set (x_keys inp). v k = 0 \<or> v k = (1::rat)"
    and sel: "{k \<in> set (x_keys inp). v k = 1} = (\<lambda>tb. (sel tb, tb)) ` {0..<NUM_TBS inp}"
  shows "sum v {k \<in> set (x_keys inp). P k}
         = of_nat (card {tb. tb < NUM_TBS inp \<and> P (sel tb, tb)})"
proof -
  have "sum v {k \<in> set (x_keys inp). P k}
        = (\<Sum>k \<in> set (x_keys inp). (if P k then 1 else 0) * v k)"
    by (simp add: sum.inter_filter[symmetric] if_distrib[of "\<lambda>x. x * _"] cong: if_cong)
  also have "\<dots> = (\<Sum>tb = 0..<NUM_TBS inp. if P (sel tb, tb) then 1 else 0)"
    by (rule selection_sum[OF bin sel])
  also have "\<dots> = of_nat (card {tb \<in> {0..<NUM_TBS inp}. P (sel tb, tb)})"
    by (simp add: sum.inter_filter[symmetric])
  finally show ?thesis by simp
qed

lemma feasible_selection:
  assumes bin: "\<forall>k \<in> set (x_keys inp). v k = 0 \<or> v k = (1::rat)"
    and one: "\<forall>tb < NUM_TBS inp. sum v {k \<in> set (x_keys inp). snd k = tb} = 1"
  shows "\<exists>sel. {k \<in> set (x_keys inp). v k = 1} = (\<lambda>tb. (sel tb, tb)) ` {0..<NUM_TBS inp}"
proof -
  have "\<exists>c. {k \<in> set (x_keys inp). snd k = tb \<and> v k = 1} = {(c, tb)}"
    if tb: "tb < NUM_TBS inp" for tb
  proof -
    let ?A = "{k \<in> set (x_keys inp). snd k = tb}"
    have "sum v ?A = (\<Sum>k \<in> ?A. 1 * v k)" by simp
    also have "\<dots> = sum (\<lambda>k. 1) {k \<in> ?A. v k = 1}"
      using bin by (intro binary_sum) auto
    also have "\<dots> = of_nat (card {k \<in> ?A. v k = 1})" by simp
    finally have "of_nat (card {k \<in> ?A. v k = 1}) = (1::rat)" using one tb by simp
    then have "card {k \<in> ?A. v k = 1} = 1" by (simp only: of_nat_eq_1_iff)
    then obtain k where k: "{k \<in> ?A. v k = 1} = {k}" by (rule card_1_singletonE)
    then have "k \<in> {k \<in> ?A. v k = 1}" by simp
    then have "snd k = tb" by simp
    then have "k = (fst k, tb)" by (cases k) simp
    with k have "{k \<in> set (x_keys inp). snd k = tb \<and> v k = 1} = {(fst k, tb)}" by auto
    then show ?thesis by blast
  qed
  then have "\<forall>tb. \<exists>c. tb < NUM_TBS inp \<longrightarrow>
                 {k \<in> set (x_keys inp). snd k = tb \<and> v k = 1} = {(c, tb)}"
    by blast
  then have "\<exists>sel. \<forall>tb. tb < NUM_TBS inp \<longrightarrow>
                 {k \<in> set (x_keys inp). snd k = tb \<and> v k = 1} = {(sel tb, tb)}"
    by (rule choice)
  then obtain sel where sel: "\<And>tb. tb < NUM_TBS inp \<Longrightarrow>
                 {k \<in> set (x_keys inp). snd k = tb \<and> v k = 1} = {(sel tb, tb)}"
    by blast
  have "{k \<in> set (x_keys inp). v k = 1} = (\<lambda>tb. (sel tb, tb)) ` {0..<NUM_TBS inp}"
  proof (intro set_eqI iffI)
    fix k assume k: "k \<in> {k \<in> set (x_keys inp). v k = 1}"
    then have tb: "snd k < NUM_TBS inp" by (simp add: set_x_keys)
    from k have "k \<in> {k' \<in> set (x_keys inp). snd k' = snd k \<and> v k' = 1}" by simp
    then have "k = (sel (snd k), snd k)" unfolding sel[OF tb] by simp
    then show "k \<in> (\<lambda>tb. (sel tb, tb)) ` {0..<NUM_TBS inp}" using tb by auto
  next
    fix k assume "k \<in> (\<lambda>tb. (sel tb, tb)) ` {0..<NUM_TBS inp}"
    then obtain tb where tb: "tb < NUM_TBS inp" "k = (sel tb, tb)" by auto
    then have "k \<in> {k \<in> set (x_keys inp). snd k = tb \<and> v k = 1}" using sel[OF tb(1)] by simp
    then show "k \<in> {k \<in> set (x_keys inp). v k = 1}" by simp
  qed
  then show ?thesis by blast
qed

lemma length_foldl_configs:
  "length (foldl (\<lambda>cfgs (cidx, tb). if P cidx tb then cfgs[tb := f cidx] else cfgs) cfgs ks)
   = length cfgs"
  by (induction ks arbitrary: cfgs) (auto simp: case_prod_beta)

lemma foldl_configs_nth:
  assumes "\<forall>k \<in> set ks. snd k = tb \<and> P (fst k) (snd k) \<longrightarrow> fst k = a"
    and "tb < length cfgs"
    and "((a, tb) \<in> set ks \<and> P a tb) \<or> cfgs ! tb = f a"
  shows "foldl (\<lambda>cfgs (cidx, tb). if P cidx tb then cfgs[tb := f cidx] else cfgs) cfgs ks ! tb
         = f a"
  using assms
proof (induction ks arbitrary: cfgs)
  case Nil
  then show ?case by simp
next
  case (Cons k ks)
  obtain c t where k: "k = (c, t)" by (cases k)
  let ?cfgs = "if P c t then cfgs[t := f c] else cfgs"
  have 1: "\<forall>k \<in> set ks. snd k = tb \<and> P (fst k) (snd k) \<longrightarrow> fst k = a"
    using Cons.prems(1) by auto
  have 2: "tb < length ?cfgs" using Cons.prems(2) by simp
  have 3: "((a, tb) \<in> set ks \<and> P a tb) \<or> ?cfgs ! tb = f a"
  proof (cases "(a, tb) \<in> set ks \<and> P a tb")
    case True
    then show ?thesis by simp
  next
    case False
    with Cons.prems(3) k consider "(c, t) = (a, tb)" "P a tb" | "cfgs ! tb = f a" by auto
    then show ?thesis
    proof cases
      case 1
      then show ?thesis using Cons.prems(2) by auto
    next
      case 2
      show ?thesis
      proof (cases "P c t \<and> t = tb")
        case True
        then have "c = a" using Cons.prems(1) k by auto
        then show ?thesis using True Cons.prems(2) by auto
      next
        case False
        then show ?thesis using 2 by auto
      qed
    qed
  qed
  show ?case using Cons.IH[OF 1 2 3] k by simp
qed

lemma tb_configs_selection:
  assumes bin: "\<forall>k \<in> set (x_keys inp). v k = 0 \<or> v k = (1::rat)"
    and sel: "{k \<in> set (x_keys inp). v k = 1} = (\<lambda>tb. (sel tb, tb)) ` {0..<NUM_TBS inp}"
  shows "tb_configs inp v = map (\<lambda>tb. Some (combos inp ! sel tb)) [0..<NUM_TBS inp]"
proof (rule nth_equalityI)
  show "length (tb_configs inp v)
        = length (map (\<lambda>tb. Some (combos inp ! sel tb)) [0..<NUM_TBS inp])"
    by (simp add: tb_configs_def length_foldl_configs)
next
  fix tb assume "tb < length (tb_configs inp v)"
  then have tb: "tb < NUM_TBS inp" by (simp add: tb_configs_def length_foldl_configs)
  have half: "(1 / 2 < v k) = (v k = 1)" if "k \<in> set (x_keys inp)" for k
    using bin that by auto
  have in_sel: "(sel tb, tb) \<in> {k \<in> set (x_keys inp). v k = 1}"
    unfolding sel using tb by simp
  have uniq: "\<forall>k \<in> set (x_keys inp). snd k = tb \<and> 1 / 2 < v (fst k, snd k) \<longrightarrow> fst k = sel tb"
  proof (intro ballI impI)
    fix k assume k: "k \<in> set (x_keys inp)" and "snd k = tb \<and> 1 / 2 < v (fst k, snd k)"
    then have "snd k = tb" "v k = 1" using half[OF k] by simp_all
    then have "k \<in> (\<lambda>tb. (sel tb, tb)) ` {0..<NUM_TBS inp}" using k sel by blast
    then show "fst k = sel tb" using \<open>snd k = tb\<close> by auto
  qed
  have "foldl (\<lambda>cfgs (cidx, tb). if 1 / 2 < v (cidx, tb)
                  then cfgs[tb := Some (combos inp ! cidx)] else cfgs)
          (replicate (NUM_TBS inp) None) (x_keys inp) ! tb = Some (combos inp ! sel tb)"
    by (rule foldl_configs_nth[where P = "\<lambda>c t. 1 / 2 < v (c, t)"
          and f = "\<lambda>c. Some (combos inp ! c)"])
      (use uniq tb in_sel in auto)
  then show "tb_configs inp v ! tb = map (\<lambda>tb. Some (combos inp ! sel tb)) [0..<NUM_TBS inp] ! tb"
    using tb by (simp add: tb_configs_def)
qed

lemma feasible_gives_assignment:
  assumes "feasible (TB_Resonance_Max inp) v"
  shows "\<exists>cfgs. tb_configs inp v = map Some cfgs \<and> feasible_assignment inp cfgs
           \<and> affine_value v (objective (TB_Resonance_Max inp)) = sum_list (map resonance cfgs)"
proof -
  from assms have bin: "\<forall>k \<in> set (x_keys inp). v k = 0 \<or> v k = 1"
    and one: "\<forall>tb < NUM_TBS inp. sum v {k \<in> set (x_keys inp). snd k = tb} = 1"
    and inst: "\<forall>i < length (part_instance_list inp).
           sum v {k \<in> set (x_keys inp). i \<in> set (idxs (combos inp ! fst k))} \<le> 1"
    and budget: "sum (\<lambda>k. of_nat (chips (combos inp ! fst k)) * v k) (set (x_keys inp))
         \<le> of_nat (total_chips_available inp)"
    unfolding feasible_iff by blast+
  from feasible_selection[OF bin one] obtain sel where
    sel: "{k \<in> set (x_keys inp). v k = 1} = (\<lambda>tb. (sel tb, tb)) ` {0..<NUM_TBS inp}"
    by blast
  define cfgs where "cfgs = map (\<lambda>tb. combos inp ! sel tb) [0..<NUM_TBS inp]"
  have len: "length cfgs = NUM_TBS inp" by (simp add: cfgs_def)
  have nth: "cfgs ! tb = combos inp ! sel tb" if "tb < NUM_TBS inp" for tb
    using that by (simp add: cfgs_def)
  have key: "sel tb < length (combos inp)
             \<and> of_nat (minreq inp tb) \<le> resonance (combos inp ! sel tb)"
    if "tb < NUM_TBS inp" for tb
  proof -
    have "(sel tb, tb) \<in> {k \<in> set (x_keys inp). v k = 1}" unfolding sel using that by simp
    then show ?thesis by (simp add: set_x_keys)
  qed
  have cfg: "tb_configs inp v = map Some cfgs"
    unfolding tb_configs_selection[OF bin sel] cfgs_def by simp
  have disj: "set (idxs (cfgs ! t1)) \<inter> set (idxs (cfgs ! t2)) = {}"
    if t: "t1 < NUM_TBS inp" "t2 < NUM_TBS inp" "t1 \<noteq> t2" for t1 t2
  proof (rule ccontr)
    assume "set (idxs (cfgs ! t1)) \<inter> set (idxs (cfgs ! t2)) \<noteq> {}"
    then obtain i where i: "i \<in> set (idxs (combos inp ! sel t1))"
      "i \<in> set (idxs (combos inp ! sel t2))"
      using nth t by auto
    have "combos inp ! sel t1 \<in> set (combos inp)" using key[OF t(1)] by simp
    then have "i < length (part_instance_list inp)" using combos_idxs(3) i(1) by fastforce
    then have "sum v {k \<in> set (x_keys inp). i \<in> set (idxs (combos inp ! fst k))} \<le> 1"
      using inst by simp
    then have "card {tb. tb < NUM_TBS inp \<and> i \<in> set (idxs (combos inp ! sel tb))} \<le> 1"
      unfolding selection_count[OF bin sel, of "\<lambda>k. i \<in> set (idxs (combos inp ! fst k))"]
      by simp
    moreover have "{t1, t2} \<subseteq> {tb. tb < NUM_TBS inp \<and> i \<in> set (idxs (combos inp ! sel tb))}"
      using t i by simp
    then have "card {t1, t2} \<le> card {tb. tb < NUM_TBS inp \<and> i \<in> set (idxs (combos inp ! sel tb))}"
      by (intro card_mono) auto
    ultimately show False using t(3) by simp
  qed
  have chips: "sum_list (map chips cfgs) \<le> total_chips_available inp"
  proof -
    have "(\<Sum>tb = 0..<NUM_TBS inp. (of_nat (chips (combos inp ! sel tb)) :: rat))
          \<le> of_nat (total_chips_available inp)"
      using budget
      unfolding selection_sum[OF bin sel, of "\<lambda>k. of_nat (chips (combos inp ! fst k))"]
      by simp
    moreover have "sum_list (map chips cfgs) = (\<Sum>tb = 0..<NUM_TBS inp. chips (combos inp ! sel tb))"
      by (simp add: cfgs_def comp_def interv_sum_list_conv_sum_set_nat)
    ultimately have "(of_nat (sum_list (map chips cfgs)) :: rat) \<le> of_nat (total_chips_available inp)"
      by simp
    then show ?thesis by (simp only: of_nat_le_iff)
  qed
  have obj: "affine_value v (objective (TB_Resonance_Max inp)) = sum_list (map resonance cfgs)"
    unfolding objective_value
      selection_sum[OF bin sel, of "\<lambda>k. resonance (combos inp ! fst k)"]
    by (simp add: cfgs_def comp_def interv_sum_list_conv_sum_set_nat)
  have "feasible_assignment inp cfgs"
    unfolding feasible_assignment_def
    using len nth key disj chips by (simp add: min_reqs_nth)
  then show ?thesis using cfg obj by blast
qed

lemma assignment_gives_feasible:
  assumes fa: "feasible_assignment inp alt"
  shows "\<exists>w. feasible (TB_Resonance_Max inp) w \<and> tb_configs inp w = map Some alt
           \<and> affine_value w (objective (TB_Resonance_Max inp)) = sum_list (map resonance alt)"
proof -
  from fa have len: "length alt = NUM_TBS inp"
    and mem: "\<And>tb. tb < NUM_TBS inp \<Longrightarrow> alt ! tb \<in> set (combos inp)"
    and low: "\<And>tb. tb < NUM_TBS inp \<Longrightarrow> of_nat (minreq inp tb) \<le> resonance (alt ! tb)"
    and disj: "\<And>t1 t2. t1 < NUM_TBS inp \<Longrightarrow> t2 < NUM_TBS inp \<Longrightarrow> t1 \<noteq> t2
                 \<Longrightarrow> set (idxs (alt ! t1)) \<inter> set (idxs (alt ! t2)) = {}"
    and budget: "sum_list (map chips alt) \<le> total_chips_available inp"
    unfolding feasible_assignment_def by (simp_all add: min_reqs_nth)
  have "\<forall>tb. \<exists>c. tb < NUM_TBS inp \<longrightarrow> c < length (combos inp) \<and> combos inp ! c = alt ! tb"
    using mem by (metis in_set_conv_nth)
  then have "\<exists>ci. \<forall>tb. tb < NUM_TBS inp
               \<longrightarrow> ci tb < length (combos inp) \<and> combos inp ! ci tb = alt ! tb"
    by (rule choice)
  then obtain ci where ci: "\<And>tb. tb < NUM_TBS inp \<Longrightarrow> ci tb < length (combos inp)"
    "\<And>tb. tb < NUM_TBS inp \<Longrightarrow> combos inp ! ci tb = alt ! tb"
    by blast
  define w :: "lp_key \<Rightarrow> rat"
    where "w = (\<lambda>k. if snd k < NUM_TBS inp \<and> fst k = ci (snd k) then 1 else 0)"
  have bin: "\<forall>k \<in> set (x_keys inp). w k = 0 \<or> w k = 1" by (simp add: w_def)
  have sel: "{k \<in> set (x_keys inp). w k = 1} = (\<lambda>tb. (ci tb, tb)) ` {0..<NUM_TBS inp}"
  proof (intro set_eqI iffI)
    fix k assume "k \<in> {k \<in> set (x_keys inp). w k = 1}"
    then have "snd k < NUM_TBS inp" "fst k = ci (snd k)"
      by (simp_all add: w_def split: if_splits)
    then have "k = (ci (snd k), snd k)" "snd k \<in> {0..<NUM_TBS inp}" by (cases k; simp)+
    then show "k \<in> (\<lambda>tb. (ci tb, tb)) ` {0..<NUM_TBS inp}" by (rule image_eqI)
  next
    fix k assume "k \<in> (\<lambda>tb. (ci tb, tb)) ` {0..<NUM_TBS inp}"
    then obtain tb where tb: "tb < NUM_TBS inp" "k = (ci tb, tb)" by auto
    then show "k \<in> {k \<in> set (x_keys inp). w k = 1}"
      using ci[OF tb(1)] low[OF tb(1)] by (simp add: set_x_keys w_def)
  qed
  have sums: "(\<Sum>tb = 0..<NUM_TBS inp. f (alt ! tb)) = sum_list (map f alt)"
    for f :: "combo \<Rightarrow> 'a::comm_monoid_add"
    using len by (simp add: sum_list_sum_nth)
  have one: "\<forall>tb < NUM_TBS inp. sum w {k \<in> set (x_keys inp). snd k = tb} = 1"
  proof (intro allI impI)
    fix tb assume tb: "tb < NUM_TBS inp"
    have "{t. t < NUM_TBS inp \<and> snd (ci t, t) = tb} = {tb}" using tb by auto
    then show "sum w {k \<in> set (x_keys inp). snd k = tb} = 1"
      unfolding selection_count[OF bin sel, of "\<lambda>k. snd k = tb"] by simp
  qed
  have inst: "\<forall>i < length (part_instance_list inp).
           sum w {k \<in> set (x_keys inp). i \<in> set (idxs (combos inp ! fst k))} \<le> 1"
  proof (intro allI impI)
    fix i
    let ?A = "{t. t < NUM_TBS inp \<and> i \<in> set (idxs (combos inp ! fst (ci t, t)))}"
    have "a = b" if "a \<in> ?A" "b \<in> ?A" for a b
    proof (rule ccontr)
      assume "a \<noteq> b"
      then have "set (idxs (alt ! a)) \<inter> set (idxs (alt ! b)) = {}"
        using that disj by simp
      then show False using that ci(2) by auto
    qed
    moreover have "finite ?A" by simp
    ultimately have "card ?A \<le> Suc 0" by (simp only: card_le_Suc0_iff_eq) blast
    then show "sum w {k \<in> set (x_keys inp). i \<in> set (idxs (combos inp ! fst k))} \<le> 1"
      unfolding selection_count[OF bin sel, of "\<lambda>k. i \<in> set (idxs (combos inp ! fst k))"]
      by simp
  qed
  have cost: "sum (\<lambda>k. of_nat (chips (combos inp ! fst k)) * w k) (set (x_keys inp))
         \<le> of_nat (total_chips_available inp)"
  proof -
    have "(\<Sum>tb = 0..<NUM_TBS inp. (of_nat (chips (combos inp ! ci tb)) :: rat))
          = (\<Sum>tb = 0..<NUM_TBS inp. of_nat (chips (alt ! tb)))"
      by (rule sum.cong) (simp_all add: ci(2))
    also have "\<dots> = sum_list (map (\<lambda>c. of_nat (chips c)) alt)" by (rule sums)
    also have "\<dots> = of_nat (sum_list (map chips alt))"
      by (induction alt) simp_all
    finally show ?thesis
      unfolding selection_sum[OF bin sel, of "\<lambda>k. of_nat (chips (combos inp ! fst k))"]
      using budget by simp
  qed
  have feas: "feasible (TB_Resonance_Max inp) w"
    unfolding feasible_iff using bin one inst cost by blast
  have "map (\<lambda>tb. Some (combos inp ! ci tb)) [0..<NUM_TBS inp] = map Some alt"
    by (rule nth_equalityI) (simp_all add: len ci(2))
  then have cfg: "tb_configs inp w = map Some alt"
    unfolding tb_configs_selection[OF bin sel] .
  have "(\<Sum>tb = 0..<NUM_TBS inp. resonance (combos inp ! ci tb))
        = (\<Sum>tb = 0..<NUM_TBS inp. resonance (alt ! tb))"
    by (rule sum.cong) (simp_all add: ci(2))
  then have obj: "affine_value w (objective (TB_Resonance_Max inp)) = sum_list (map resonance alt)"
    unfolding objective_value
      selection_sum[OF bin sel, of "\<lambda>k. resonance (combos inp ! fst k)"]
    by (simp add: sums)
  show ?thesis using feas cfg obj by blast
qed

section \<open>What the Solve button shows\<close>

lemma table_rows_Some:
  "table_rows (map Some cfgs)
   = Best_configuration cfgs (foldl float_add 0 (map resonance cfgs))"
  by (simp add: list_ex_iff comp_def)

lemma after_solve_optimal:
  assumes "feasible (TB_Resonance_Max inp) v"
  shows "\<exists>cfgs. after_solve inp (LpStatusOptimal, v)
                  = Best_configuration cfgs (foldl float_add 0 (map resonance cfgs))
               \<and> feasible_assignment inp cfgs
               \<and> affine_value v (objective (TB_Resonance_Max inp))
                  = sum_list (map resonance cfgs)"
proof -
  from feasible_gives_assignment[OF assms] obtain cfgs where
    "tb_configs inp v = map Some cfgs" "feasible_assignment inp cfgs"
    "affine_value v (objective (TB_Resonance_Max inp)) = sum_list (map resonance cfgs)"
    by blast
  then show ?thesis
    by (intro exI[of _ cfgs]) (simp add: after_solve_def table_rows_Some del: table_rows.simps)
qed

text \<open>The total shown is the float sum of the resonances in the order of the TBs; what the
  solver maximises is the objective, the exact sum of the coefficients of the chosen
  variables.\<close>

lemma solve_button_best_iff:
  "solve_button inp (Best_configuration cfgs score) \<longleftrightarrow>
     input_issues inp = [] \<and> feasible_assignment inp cfgs
     \<and> score = foldl float_add 0 (map resonance cfgs)
     \<and> (\<forall>alt. feasible_assignment inp alt
            \<longrightarrow> sum_list (map resonance alt) \<le> sum_list (map resonance cfgs))"
proof
  assume "solve_button inp (Best_configuration cfgs score)"
  then obtain r where iss: "input_issues inp = []"
    and r: "solve (TB_Resonance_Max inp) r" "after_solve inp r = Best_configuration cfgs score"
    by (auto elim: solve_button.cases)
  obtain status v where rv: "r = (status, v)" by (cases r)
  have st: "status = LpStatusOptimal"
    using r(2) rv by (auto simp: after_solve_def split: if_splits)
  then have opt: "optimal (TB_Resonance_Max inp) v"
    using r(1) rv by (auto elim: solve.cases)
  then have feas: "feasible (TB_Resonance_Max inp) v" by (simp add: optimal_def)
  from after_solve_optimal[OF feas] obtain cfgs' where c:
    "after_solve inp (LpStatusOptimal, v)
     = Best_configuration cfgs' (foldl float_add 0 (map resonance cfgs'))"
    "feasible_assignment inp cfgs'"
    "affine_value v (objective (TB_Resonance_Max inp)) = sum_list (map resonance cfgs')"
    by blast
  have eq: "cfgs' = cfgs" "score = foldl float_add 0 (map resonance cfgs)"
    using c(1) r(2) rv st by auto
  have "sum_list (map resonance alt) \<le> sum_list (map resonance cfgs)"
    if "feasible_assignment inp alt" for alt
  proof -
    from assignment_gives_feasible[OF that] obtain w where
      "feasible (TB_Resonance_Max inp) w"
      "affine_value w (objective (TB_Resonance_Max inp)) = sum_list (map resonance alt)"
      by blast
    then show ?thesis using opt c(3) eq by (auto simp: optimal_def)
  qed
  then show "input_issues inp = [] \<and> feasible_assignment inp cfgs
     \<and> score = foldl float_add 0 (map resonance cfgs)
     \<and> (\<forall>alt. feasible_assignment inp alt
            \<longrightarrow> sum_list (map resonance alt) \<le> sum_list (map resonance cfgs))"
    using iss c(2) eq by blast
next
  assume a: "input_issues inp = [] \<and> feasible_assignment inp cfgs
     \<and> score = foldl float_add 0 (map resonance cfgs)
     \<and> (\<forall>alt. feasible_assignment inp alt
            \<longrightarrow> sum_list (map resonance alt) \<le> sum_list (map resonance cfgs))"
  then obtain w where w: "feasible (TB_Resonance_Max inp) w" "tb_configs inp w = map Some cfgs"
    "affine_value w (objective (TB_Resonance_Max inp)) = sum_list (map resonance cfgs)"
    using assignment_gives_feasible by blast
  have "affine_value u (objective (TB_Resonance_Max inp))
        \<le> affine_value w (objective (TB_Resonance_Max inp))"
    if "feasible (TB_Resonance_Max inp) u" for u
  proof -
    from feasible_gives_assignment[OF that] obtain cu where
      "feasible_assignment inp cu"
      "affine_value u (objective (TB_Resonance_Max inp)) = sum_list (map resonance cu)"
      by blast
    then show ?thesis using a w(3) by auto
  qed
  then have "optimal (TB_Resonance_Max inp) w" using w(1) by (simp add: optimal_def)
  then have "solve (TB_Resonance_Max inp) (LpStatusOptimal, w)" by (rule solve_optimal)
  then have "solve_button inp (after_solve inp (LpStatusOptimal, w))"
    using a by (intro solved) simp
  moreover have "after_solve inp (LpStatusOptimal, w) = Best_configuration cfgs score"
    using w(2) a by (simp add: after_solve_def table_rows_Some del: table_rows.simps)
  ultimately show "solve_button inp (Best_configuration cfgs score)" by simp
qed

lemma solve_button_no_valid_iff:
  "solve_button inp No_valid_configuration \<longleftrightarrow>
     input_issues inp = [] \<and> \<not> (\<exists>alt. feasible_assignment inp alt)"
proof
  assume "solve_button inp No_valid_configuration"
  then obtain r where iss: "input_issues inp = []"
    and r: "solve (TB_Resonance_Max inp) r" "after_solve inp r = No_valid_configuration"
    by (auto elim: solve_button.cases)
  obtain status v where rv: "r = (status, v)" by (cases r)
  have "status \<noteq> LpStatusOptimal"
  proof
    assume st: "status = LpStatusOptimal"
    then have "optimal (TB_Resonance_Max inp) v" using r(1) rv by (auto elim: solve.cases)
    then have "feasible (TB_Resonance_Max inp) v" by (simp add: optimal_def)
    from after_solve_optimal[OF this] show False using r(2) rv st by auto
  qed
  then have "\<not> (\<exists>w. feasible (TB_Resonance_Max inp) w)"
    using r(1) rv by (auto elim: solve.cases)
  then have "\<not> (\<exists>alt. feasible_assignment inp alt)"
    using assignment_gives_feasible by blast
  then show "input_issues inp = [] \<and> \<not> (\<exists>alt. feasible_assignment inp alt)" using iss by simp
next
  assume a: "input_issues inp = [] \<and> \<not> (\<exists>alt. feasible_assignment inp alt)"
  then have "\<not> (\<exists>w. feasible (TB_Resonance_Max inp) w)"
    using feasible_gives_assignment by blast
  then have "solve (TB_Resonance_Max inp) (LpStatusInfeasible, (\<lambda>k. 0))"
    by (rule solve_infeasible)
  then have "solve_button inp (after_solve inp (LpStatusInfeasible, (\<lambda>k. 0)))"
    using a by (intro solved) simp
  then show "solve_button inp No_valid_configuration" by (simp add: after_solve_def)
qed

lemma solve_button_no_TypeError: "\<not> solve_button inp TypeError"
proof
  assume "solve_button inp TypeError"
  then obtain r where r: "solve (TB_Resonance_Max inp) r" "after_solve inp r = TypeError"
    by (auto elim: solve_button.cases)
  obtain status v where rv: "r = (status, v)" by (cases r)
  have st: "status = LpStatusOptimal"
    using r(2) rv by (auto simp: after_solve_def split: if_splits)
  then have "optimal (TB_Resonance_Max inp) v" using r(1) rv by (auto elim: solve.cases)
  then have "feasible (TB_Resonance_Max inp) v" by (simp add: optimal_def)
  from after_solve_optimal[OF this] show False using r(2) rv st by auto
qed

section \<open>The scenarios\<close>

lemma input_issues_E2_R2: "input_issues scenario_E2_R2 = []"
proof -
  have "\<not> (\<exists>tb < NUM_TBS scenario_E2_R2. 21500 < minreq scenario_E2_R2 tb)"
    by (simp add: scenario_E2_R2_def)
  then have "''One or more minimum resonance requirements are impossibly high.''
               \<notin> set (input_issues scenario_E2_R2)"
    by (simp only: impossibly_high_iff not_False_eq_True)
  moreover have "sum_list (map (available_parts_input scenario_E2_R2) (map fst PART_BASE_VALUES)) = 4"
    by (simp add: scenario_E2_R2_def PART_BASE_VALUES_def)
  ultimately show ?thesis
    by (simp add: input_issues_def PARTS_PER_TB_def split: if_splits)
      (simp add: scenario_E2_R2_def)
qed

lemma base_value_le: "base_value p \<le> 1000"
  by (cases p) (simp_all add: base_value_simps)

lemma combinations_3_of_4:
  "combinations PARTS_PER_TB [0..<4] = [[0, 1, 2], [0, 1, 3], [0, 2, 3], [1, 2, 3]]"
proof -
  have "[0..<4] = [0, 1, 2, 3]" by (simp add: upt_rec)
  then show ?thesis by (simp add: PARTS_PER_TB_def numeral_3_eq_3)
qed

lemma resonance_E2_R2:
  assumes "c \<in> set (combos scenario_E2_R2)" and "chips c \<le> 9"
  shows "resonance c \<le> 5100"
proof -
  let ?pil = "part_instance_list scenario_E2_R2"
  from assms(1)[unfolded in_combos_iff] obtain js e
    where js: "js \<in> set (combinations PARTS_PER_TB [0..<length ?pil])"
    and e: "e \<in> set MULTIPLIER_DATA"
    and c: "c = \<lparr>idxs = js, parts = map (\<lambda>i. ?pil ! i) js, chips = fst e,
               resonance = float_mul (of_nat (sum_list (map base_value
                                         (map (\<lambda>i. ?pil ! i) js))))
                                     (snd e)\<rparr>"
    by blast
  define base where "base = sum_list (map base_value (map (\<lambda>i. ?pil ! i) js))"
  have n: "length ?pil = 4" by (simp add: part_instance_list_E2_R2)
  have "js \<in> set [[0, 1, 2], [0, 1, 3], [0, 2, 3], [1, 2, 3]]"
    using js unfolding n combinations_3_of_4 .
  then have b: "base \<le> 2550"
    unfolding base_def by (auto simp: part_instance_list_E2_R2 base_value_simps)
  have m: "0 \<le> snd e" "snd e \<le> 2"
    using multiplier_within_9_chips[OF e] assms(2) c by simp_all
  have "of_nat base * snd e \<le> of_nat 2550 * 2"
    using b m by (intro mult_mono) (simp_all only: of_nat_le_iff of_nat_0_le_iff)
  then have "of_nat base * snd e \<le> of_int 5100" by simp
  then have "float_mul (of_nat base) (snd e) \<le> of_int 5100"
    using b m by (intro float_mul_le_int) simp_all
  then show ?thesis using c by (simp add: base_def)
qed

lemma feasible_assignment_E2_R2: "feasible_assignment scenario_E2_R2 [group_E_E_R2]"
  unfolding feasible_assignment_def
  using group_E_E_R2_in_combos
  by (simp add: scenario_E2_R2_def min_reqs_per_tb_def group_E_E_R2_def)

lemma feasible_assignment_E2_R2_bound:
  assumes "feasible_assignment scenario_E2_R2 alt"
  shows "sum_list (map resonance alt) \<le> 5100"
proof -
  from assms have len: "length alt = 1" and mem: "alt ! 0 \<in> set (combos scenario_E2_R2)"
    and b: "sum_list (map chips alt) \<le> 9"
    unfolding feasible_assignment_def by (simp_all add: scenario_E2_R2_def)
  from len obtain c where alt: "alt = [c]" by (cases alt) auto
  then show ?thesis using resonance_E2_R2[of c] mem b by simp
qed

lemma solve_button_E2_R2:
  "solve_button scenario_E2_R2 (Best_configuration [group_E_E_R2] 5100)"
  unfolding solve_button_best_iff
  using input_issues_E2_R2 feasible_assignment_E2_R2 feasible_assignment_E2_R2_bound
  by (simp add: group_E_E_R2_def float_add_values)

lemma sum_list_bounded:
  "(\<And>x. x \<in> set xs \<Longrightarrow> f x \<le> (n::nat)) \<Longrightarrow> sum_list (map f xs) \<le> length xs * n"
  by (induction xs) (simp_all add: add_mono)

lemma combos_resonance:
  assumes "c \<in> set (combos inp)"
  shows "\<exists>e \<in> set MULTIPLIER_DATA. \<exists>b \<le> 3000.
           chips c = fst e \<and> resonance c = float_mul (of_nat b) (snd e)"
proof -
  let ?pil = "part_instance_list inp"
  from assms[unfolded in_combos_iff] obtain js e
    where js: "js \<in> set (combinations PARTS_PER_TB [0..<length ?pil])"
    and e: "e \<in> set MULTIPLIER_DATA"
    and c: "c = \<lparr>idxs = js, parts = map (\<lambda>i. ?pil ! i) js, chips = fst e,
               resonance = float_mul (of_nat (sum_list (map base_value
                                         (map (\<lambda>i. ?pil ! i) js))))
                                     (snd e)\<rparr>"
    by blast
  have "length (map (\<lambda>i. ?pil ! i) js) = 3"
    using combinations_length[OF js] by (simp add: PARTS_PER_TB_def)
  then have "sum_list (map base_value (map (\<lambda>i. ?pil ! i) js)) \<le> 3000"
    using sum_list_bounded[of "map (\<lambda>i. ?pil ! i) js" base_value 1000] base_value_le by simp
  then show ?thesis
    using e c
    by (intro bexI[of _ e] exI[of _ "sum_list (map base_value (map (\<lambda>i. ?pil ! i) js))"])
      simp_all
qed

lemma resonance_le_15000:
  assumes "c \<in> set (combos inp)"
  shows "resonance c \<le> 15000"
proof -
  from combos_resonance[OF assms] obtain e b where e: "e \<in> set MULTIPLIER_DATA"
    and b: "b \<le> 3000" and c: "resonance c = float_mul (of_nat b) (snd e)"
    by blast
  have m: "0 \<le> snd e" "snd e \<le> 5" using multiplier_bounds[OF e] by simp_all
  have "of_nat b * snd e \<le> of_nat 3000 * 5"
    using b m by (intro mult_mono) (simp_all only: of_nat_le_iff of_nat_0_le_iff)
  then have "of_nat b * snd e \<le> of_int 15000" by simp
  then have "float_mul (of_nat b) (snd e) \<le> of_int 15000"
    using b m by (intro float_mul_le_int)
  then show ?thesis using c by simp
qed

lemma no_assignment_high_minimum: "\<not> feasible_assignment scenario_high_minimum alt"
proof
  assume "feasible_assignment scenario_high_minimum alt"
  then have "alt ! 0 \<in> set (combos scenario_high_minimum)" "16000 \<le> resonance (alt ! 0)"
    unfolding feasible_assignment_def
    by (simp_all add: scenario_high_minimum_def min_reqs_per_tb_def)
  then show False using resonance_le_15000[of "alt ! 0" scenario_high_minimum] by simp
qed

lemma solve_button_high_minimum: "solve_button scenario_high_minimum No_valid_configuration"
  unfolding solve_button_no_valid_iff
  using input_issues_high_minimum no_assignment_high_minimum by simp

lemma solve_button_Fix_iff: "solve_button inp Fix_input_issues \<longleftrightarrow> input_issues inp \<noteq> []"
proof
  assume "solve_button inp Fix_input_issues"
  then show "input_issues inp \<noteq> []"
  proof (cases rule: solve_button.cases)
    case gate
    then show ?thesis by simp
  next
    case (solved r)
    then have False
      by (cases r) (auto simp: after_solve_def list_ex_iff split: if_splits)
    then show ?thesis ..
  qed
next
  assume "input_issues inp \<noteq> []"
  then show "solve_button inp Fix_input_issues" by (rule gate)
qed

lemma part_instance_list_two_TBs: "part_instance_list scenario_two_TBs = [E, E, E, E, E, E]"
  by (simp add: part_instance_list_def scenario_two_TBs_def PART_BASE_VALUES_def numeral_eq_Suc)

lemma input_issues_two_TBs: "input_issues scenario_two_TBs = []"
proof -
  have "\<not> (\<exists>tb < NUM_TBS scenario_two_TBs. 21500 < minreq scenario_two_TBs tb)"
    by (simp add: scenario_two_TBs_def)
  then have "''One or more minimum resonance requirements are impossibly high.''
               \<notin> set (input_issues scenario_two_TBs)"
    by (simp only: impossibly_high_iff not_False_eq_True)
  moreover have "sum_list (map (available_parts_input scenario_two_TBs) (map fst PART_BASE_VALUES)) = 6"
    by (simp add: scenario_two_TBs_def PART_BASE_VALUES_def)
  ultimately show ?thesis
    by (simp add: input_issues_def PARTS_PER_TB_def split: if_splits)
      (simp add: scenario_two_TBs_def)
qed

lemma groups_in_combos_two_TBs:
  "group_first_three \<in> set (combos scenario_two_TBs)"
  "group_last_three \<in> set (combos scenario_two_TBs)"
proof -
  let ?pil = "part_instance_list scenario_two_TBs"
  have e: "(1, 5404319552844595 / 4503599627370496) \<in> set MULTIPLIER_DATA"
    by (simp add: MULTIPLIER_DATA_values)
  have "[0, 1, 2] \<in> set (combinations PARTS_PER_TB [0..<length ?pil])"
    by (intro combinations_complete) (auto simp: PARTS_PER_TB_def part_instance_list_two_TBs)
  moreover have "group_first_three
     = \<lparr>idxs = [0, 1, 2], parts = map (\<lambda>i. ?pil ! i) [0, 1, 2],
        chips = fst (1::nat, 5404319552844595 / 4503599627370496 :: rat),
        resonance = float_mul (of_nat (sum_list (map base_value
                                         (map (\<lambda>i. ?pil ! i) [0, 1, 2]))))
                              (snd (1::nat, 5404319552844595 / 4503599627370496 :: rat))\<rparr>"
    by (simp add: group_first_three_def part_instance_list_two_TBs base_value_simps
        float_mul_values)
  ultimately show "group_first_three \<in> set (combos scenario_two_TBs)"
    unfolding in_combos_iff using e by blast
  have "[3, 4, 5] \<in> set (combinations PARTS_PER_TB [0..<length ?pil])"
    by (intro combinations_complete) (auto simp: PARTS_PER_TB_def part_instance_list_two_TBs)
  moreover have "group_last_three
     = \<lparr>idxs = [3, 4, 5], parts = map (\<lambda>i. ?pil ! i) [3, 4, 5],
        chips = fst (1::nat, 5404319552844595 / 4503599627370496 :: rat),
        resonance = float_mul (of_nat (sum_list (map base_value
                                         (map (\<lambda>i. ?pil ! i) [3, 4, 5]))))
                              (snd (1::nat, 5404319552844595 / 4503599627370496 :: rat))\<rparr>"
    by (simp add: group_last_three_def part_instance_list_two_TBs base_value_simps
        float_mul_values)
  ultimately show "group_last_three \<in> set (combos scenario_two_TBs)"
    unfolding in_combos_iff using e by blast
qed

lemma feasible_assignment_two_TBs:
  "feasible_assignment scenario_two_TBs [group_first_three, group_last_three]"
  "feasible_assignment scenario_two_TBs [group_last_three, group_first_three]"
  unfolding feasible_assignment_def
  using groups_in_combos_two_TBs
  by (simp_all add: scenario_two_TBs_def min_reqs_per_tb_def group_first_three_def
      group_last_three_def less_Suc_eq numeral_2_eq_2 all_conj_distrib)

lemma resonance_two_chips:
  assumes "c \<in> set (combos inp)" and "chips c \<le> 2"
  shows "resonance c \<le> 3000 + 600 * of_nat (chips c)"
proof -
  from combos_resonance[OF assms(1)] obtain e b where e: "e \<in> set MULTIPLIER_DATA"
    and b: "b \<le> 3000" and ch: "chips c = fst e"
    and c: "resonance c = float_mul (of_nat b) (snd e)"
    by blast
  have m: "0 \<le> snd e" "5 * snd e \<le> 5 + of_nat (chips c)"
    using multiplier_within_2_chips[OF e] assms(2) ch by simp_all
  have m5: "snd e \<le> 5" using multiplier_bounds[OF e] by simp
  have "of_nat b * snd e \<le> of_nat 3000 * snd e"
    using b m(1) by (intro mult_right_mono) (simp_all only: of_nat_le_iff)
  also have "\<dots> = 600 * (5 * snd e)" by simp
  also have "\<dots> \<le> 600 * (5 + of_nat (chips c))"
    using m(2) by (intro mult_left_mono) simp_all
  also have "\<dots> = of_int (3000 + 600 * int (chips c))" by simp
  finally have "float_mul (of_nat b) (snd e) \<le> of_int (3000 + 600 * int (chips c))"
    using b m(1) m5 by (intro float_mul_le_int)
  then show ?thesis using c by simp
qed

lemma feasible_assignment_two_TBs_bound:
  assumes "feasible_assignment scenario_two_TBs alt"
  shows "sum_list (map resonance alt) \<le> 7200"
proof -
  from assms have len: "length alt = 2"
    and mem: "alt ! 0 \<in> set (combos scenario_two_TBs)" "alt ! 1 \<in> set (combos scenario_two_TBs)"
    and b: "sum_list (map chips alt) \<le> 2"
    unfolding feasible_assignment_def by (simp_all add: scenario_two_TBs_def)
  from len obtain c d where alt: "alt = [c, d]"
    by (cases alt; cases "tl alt") auto
  have ch: "chips c + chips d \<le> 2" using b alt by simp
  have "resonance c \<le> 3000 + 600 * of_nat (chips c)"
    using resonance_two_chips[of c scenario_two_TBs] mem(1) ch alt by simp
  moreover have "resonance d \<le> 3000 + 600 * of_nat (chips d)"
    using resonance_two_chips[of d scenario_two_TBs] mem(2) ch alt by simp
  moreover have "(of_nat (chips c) + of_nat (chips d) :: rat) \<le> 2"
    using ch by (metis of_nat_add of_nat_le_iff of_nat_numeral)
  ultimately show ?thesis using alt by simp
qed

lemma solve_button_two_TBs:
  "solve_button scenario_two_TBs (Best_configuration [group_first_three, group_last_three] 7200)"
  "solve_button scenario_two_TBs (Best_configuration [group_last_three, group_first_three] 7200)"
  unfolding solve_button_best_iff
  using input_issues_two_TBs feasible_assignment_two_TBs feasible_assignment_two_TBs_bound
  by (simp_all add: group_first_three_def group_last_three_def float_add_values)

lemma part_instance_list_no_chips: "part_instance_list scenario_no_chips = [E, E, E]"
  by (simp add: part_instance_list_def scenario_no_chips_def PART_BASE_VALUES_def numeral_eq_Suc)

lemma feasible_assignment_no_chips: "feasible_assignment scenario_no_chips [group_E_E_E_plain]"
proof -
  let ?pil = "part_instance_list scenario_no_chips"
  have "[0, 1, 2] \<in> set (combinations PARTS_PER_TB [0..<length ?pil])"
    by (intro combinations_complete) (auto simp: PARTS_PER_TB_def part_instance_list_no_chips)
  moreover have "(0, 1) \<in> set MULTIPLIER_DATA" by (simp add: MULTIPLIER_DATA_values)
  moreover have "group_E_E_E_plain
     = \<lparr>idxs = [0, 1, 2], parts = map (\<lambda>i. ?pil ! i) [0, 1, 2],
        chips = fst (0::nat, 1 :: rat),
        resonance = float_mul (of_nat (sum_list (map base_value
                                         (map (\<lambda>i. ?pil ! i) [0, 1, 2]))))
                              (snd (0::nat, 1 :: rat))\<rparr>"
    by (simp add: group_E_E_E_plain_def part_instance_list_no_chips base_value_simps
        float_mul_values)
  ultimately have "group_E_E_E_plain \<in> set (combos scenario_no_chips)"
    unfolding in_combos_iff by blast
  then show ?thesis
    unfolding feasible_assignment_def
    by (simp add: scenario_no_chips_def min_reqs_per_tb_def group_E_E_E_plain_def)
qed

text \<open>
  The inventory \<open>{E: 2, R3: 1}\<close> has one triple, with the base value 2700. With 2 chips
  the best multiplier is \<^verbatim>\<open>1.4\<close>, and the score \<^verbatim>\<open>2700 * 1.4\<close> is the double
  \<^verbatim>\<open>3779.9999999999995\<close>, below the minimum 3780: no pair gets a variable.
\<close>

lemma part_instance_list_rounded_minimum:
  "part_instance_list scenario_rounded_minimum = [E, E, R3]"
  by (simp add: part_instance_list_def scenario_rounded_minimum_def PART_BASE_VALUES_def
      numeral_2_eq_2)

lemma input_issues_rounded_minimum: "input_issues scenario_rounded_minimum = []"
proof -
  have "\<not> (\<exists>tb < NUM_TBS scenario_rounded_minimum. 21500 < minreq scenario_rounded_minimum tb)"
    by (simp add: scenario_rounded_minimum_def)
  then have "''One or more minimum resonance requirements are impossibly high.''
               \<notin> set (input_issues scenario_rounded_minimum)"
    by (simp only: impossibly_high_iff not_False_eq_True)
  moreover have "sum_list (map (available_parts_input scenario_rounded_minimum)
                               (map fst PART_BASE_VALUES)) = 3"
    by (simp add: scenario_rounded_minimum_def PART_BASE_VALUES_def)
  ultimately show ?thesis
    by (simp add: input_issues_def PARTS_PER_TB_def split: if_splits)
      (simp add: scenario_rounded_minimum_def)
qed

lemma combinations_3_of_3: "combinations PARTS_PER_TB [0..<3] = [[0, 1, 2]]"
proof -
  have "[0..<3] = [0, 1, 2]" by (simp add: upt_rec)
  then show ?thesis by (simp add: PARTS_PER_TB_def numeral_3_eq_3)
qed

lemma resonance_rounded_minimum:
  assumes "c \<in> set (combos scenario_rounded_minimum)" and "chips c \<le> 2"
  shows "resonance c < 3780"
proof -
  let ?pil = "part_instance_list scenario_rounded_minimum"
  from assms(1)[unfolded in_combos_iff] obtain js e
    where js: "js \<in> set (combinations PARTS_PER_TB [0..<length ?pil])"
    and e: "e \<in> set MULTIPLIER_DATA"
    and c: "c = \<lparr>idxs = js, parts = map (\<lambda>i. ?pil ! i) js, chips = fst e,
               resonance = float_mul (of_nat (sum_list (map base_value
                                         (map (\<lambda>i. ?pil ! i) js))))
                                     (snd e)\<rparr>"
    by blast
  have n: "length ?pil = 3" by (simp add: part_instance_list_rounded_minimum)
  have "js \<in> set [[0, 1, 2]]" using js unfolding n combinations_3_of_3 .
  then have "sum_list (map base_value (map (\<lambda>i. ?pil ! i) js)) = 2700"
    by (simp add: part_instance_list_rounded_minimum base_value_simps)
  then have r: "resonance c = float_mul 2700 (snd e)" using c by simp
  have "fst e \<le> 2" using assms(2) c by simp
  then have "float_mul 2700 (snd e) < 3780"
    using scores_2700_within_2_chips e by (simp add: list_all_iff)
  then show ?thesis using r by simp
qed

lemma no_assignment_rounded_minimum: "\<not> feasible_assignment scenario_rounded_minimum alt"
proof
  assume a: "feasible_assignment scenario_rounded_minimum alt"
  then have len: "length alt = 1"
    and mem: "alt ! 0 \<in> set (combos scenario_rounded_minimum)"
    and r: "3780 \<le> resonance (alt ! 0)"
    and b: "sum_list (map chips alt) \<le> 2"
    unfolding feasible_assignment_def
    by (simp_all add: scenario_rounded_minimum_def min_reqs_per_tb_def)
  from len obtain c where alt: "alt = [c]" by (cases alt) auto
  then show False using resonance_rounded_minimum[of c] mem r b by simp
qed

lemma solve_button_rounded_minimum:
  "solve_button scenario_rounded_minimum No_valid_configuration"
  "\<not> solve_button scenario_rounded_minimum (Best_configuration cfgs score)"
proof -
  show "solve_button scenario_rounded_minimum No_valid_configuration"
    unfolding solve_button_no_valid_iff
    using input_issues_rounded_minimum no_assignment_rounded_minimum by simp
  show "\<not> solve_button scenario_rounded_minimum (Best_configuration cfgs score)"
    unfolding solve_button_best_iff using no_assignment_rounded_minimum by simp
qed

section \<open>The claims about a returned assignment\<close>

text \<open>
  Claim C3. In a best configuration shown by the handler there is one group per TB, and no
  part instance index appears in the groups of two different TBs.
\<close>

theorem assigned_groups_disjoint:
  "solve_button inp (Best_configuration cfgs score) \<Longrightarrow>
     length cfgs = NUM_TBS inp
     \<and> (\<forall>t1 < length cfgs. \<forall>t2 < length cfgs.
           t1 \<noteq> t2 \<longrightarrow> set (idxs (cfgs ! t1)) \<inter> set (idxs (cfgs ! t2)) = {})"
  unfolding solve_button_best_iff feasible_assignment_def by auto

theorem assigned_groups_disjoint_witness:
  "solve_button scenario_two_TBs (Best_configuration [group_first_three, group_last_three] 7200)
   \<and> (0::nat) < length [group_first_three, group_last_three]
   \<and> (1::nat) < length [group_first_three, group_last_three] \<and> (0::nat) \<noteq> 1
   \<and> set (idxs ([group_first_three, group_last_three] ! 0))
       \<inter> set (idxs ([group_first_three, group_last_three] ! 1)) = {}"
  using assigned_groups_disjoint [OF solve_button_two_TBs(1)] solve_button_two_TBs(1)
  by (simp add: group_first_three_def group_last_three_def)

text \<open>
  Claim C4. In a best configuration shown by the handler, the resonance of the group of
  every TB, the double that the script computed for it, is at least the minimum resonance
  entered for that TB.
\<close>

theorem assigned_score_meets_minimum:
  "solve_button inp (Best_configuration cfgs score) \<Longrightarrow>
     length cfgs = NUM_TBS inp
     \<and> (\<forall>tb < NUM_TBS inp. of_nat (min_reqs_per_tb inp ! tb) \<le> resonance (cfgs ! tb))"
  unfolding solve_button_best_iff feasible_assignment_def by auto

theorem assigned_score_meets_minimum_witness:
  "solve_button scenario_two_TBs (Best_configuration [group_first_three, group_last_three] 7200)
   \<and> min_reqs_per_tb scenario_two_TBs = [3500, 3000]
   \<and> (0::nat) < NUM_TBS scenario_two_TBs
   \<and> of_nat (min_reqs_per_tb scenario_two_TBs ! 0)
       \<le> resonance ([group_first_three, group_last_three] ! 0)
   \<and> (1::nat) < NUM_TBS scenario_two_TBs
   \<and> of_nat (min_reqs_per_tb scenario_two_TBs ! 1)
       \<le> resonance ([group_first_three, group_last_three] ! 1)"
proof -
  have n: "NUM_TBS scenario_two_TBs = 2" by (simp add: scenario_two_TBs_def)
  have m: "min_reqs_per_tb scenario_two_TBs = [3500, 3000]"
    by (simp add: min_reqs_per_tb_def scenario_two_TBs_def upt_rec)
  show ?thesis
    using assigned_score_meets_minimum [OF solve_button_two_TBs(1)] solve_button_two_TBs(1) n m
    by (simp add: group_first_three_def group_last_three_def)
qed

text \<open>
  Claim C5. In a best configuration shown by the handler, the chips of the groups of all TBs
  add up to at most the total chips available.
\<close>

theorem assigned_chips_within_budget:
  "solve_button inp (Best_configuration cfgs score) \<Longrightarrow>
     sum_list (map chips cfgs) \<le> total_chips_available inp"
  unfolding solve_button_best_iff feasible_assignment_def by auto

theorem assigned_chips_within_budget_witness:
  "solve_button scenario_two_TBs (Best_configuration [group_first_three, group_last_three] 7200)
   \<and> sum_list (map chips [group_first_three, group_last_three]) = 2
   \<and> total_chips_available scenario_two_TBs = 2
   \<and> sum_list (map chips [group_first_three, group_last_three])
       \<le> total_chips_available scenario_two_TBs"
  using assigned_chips_within_budget [OF solve_button_two_TBs(1)] solve_button_two_TBs(1)
  by (simp add: group_first_three_def group_last_three_def scenario_two_TBs_def)

section \<open>The first scenario\<close>

text \<open>
  Claim C6, as the code has it. For the inventory \<open>{E: 2, R2: 2}\<close>, 9 chips and one TB with
  minimum 0, the parts \<open>E, E, R2\<close> have the base value 2550, the table gives the multiplier
  2.0 for 9 chips, the handler can show this group with the total 5100, and every run shows
  a best configuration with the total 5100.
\<close>

theorem scenario_E2_R2_total:
  "sum_list (map base_value (parts group_E_E_R2)) = 2550
   \<and> map_of MULTIPLIER_DATA (chips group_E_E_R2) = Some 2
   \<and> solve_button scenario_E2_R2 (Best_configuration [group_E_E_R2] 5100)
   \<and> (\<forall>out. solve_button scenario_E2_R2 out \<longrightarrow> (\<exists>cfgs. out = Best_configuration cfgs 5100))"
proof (intro conjI allI impI)
  show "sum_list (map base_value (parts group_E_E_R2)) = 2550"
    by (simp add: group_E_E_R2_def base_value_simps)
  show "map_of MULTIPLIER_DATA (chips group_E_E_R2) = Some 2"
    by (simp add: group_E_E_R2_def MULTIPLIER_DATA_values)
  show "solve_button scenario_E2_R2 (Best_configuration [group_E_E_R2] 5100)"
    by (rule solve_button_E2_R2)
next
  fix out assume out: "solve_button scenario_E2_R2 out"
  show "\<exists>cfgs. out = Best_configuration cfgs 5100"
  proof (cases out)
    case Fix_input_issues
    then show ?thesis using out input_issues_E2_R2 by (simp add: solve_button_Fix_iff)
  next
    case (Best_configuration cfgs score)
    then have "solve_button scenario_E2_R2 (Best_configuration cfgs score)" using out by simp
    then have 2: "feasible_assignment scenario_E2_R2 cfgs"
      "score = foldl float_add 0 (map resonance cfgs)"
      "\<And>alt. feasible_assignment scenario_E2_R2 alt
            \<Longrightarrow> sum_list (map resonance alt) \<le> sum_list (map resonance cfgs)"
      unfolding solve_button_best_iff by blast+
    have "length cfgs = 1"
      using 2(1) unfolding feasible_assignment_def by (simp add: scenario_E2_R2_def)
    then obtain c where c: "cfgs = [c]" by (cases cfgs) auto
    have "resonance c \<le> 5100" using feasible_assignment_E2_R2_bound[OF 2(1)] c by simp
    moreover have "5100 \<le> resonance c"
      using 2(3)[OF feasible_assignment_E2_R2] c by (simp add: group_E_E_R2_def)
    ultimately have "resonance c = 5100" by simp
    then have "score = 5100" using 2(2) c by (simp add: float_add_values)
    then show ?thesis using Best_configuration by simp
  next
    case No_valid_configuration
    then show ?thesis
      using out feasible_assignment_E2_R2 by (auto simp: solve_button_no_valid_iff)
  next
    case TypeError
    then show ?thesis using out solve_button_no_TypeError by simp
  qed
qed

theorem scenario_E2_R2_total_witness:
  "solve_button scenario_E2_R2 (Best_configuration [group_E_E_R2] 5100)
   \<and> (\<exists>cfgs. Best_configuration [group_E_E_R2] 5100 = Best_configuration cfgs 5100)
   \<and> \<not> solve_button scenario_E2_R2 No_valid_configuration"
  using scenario_E2_R2_total by blast

text \<open>
  The total 4300 is not what the handler shows for the group \<open>E, E, R2\<close> with 9 chips: the
  base values 1000, 1000 and 550 add up to 2550, and the total shown is 5100.
\<close>

theorem scenario_E2_R2_counterexample:
  "solve_button scenario_E2_R2 (Best_configuration [group_E_E_R2] 5100)
   \<and> \<not> solve_button scenario_E2_R2 (Best_configuration [group_E_E_R2] 4300)
   \<and> sum_list (map base_value [E, E, R2]) = 2550"
proof -
  have "\<not> solve_button scenario_E2_R2 (Best_configuration [group_E_E_R2] 4300)"
    unfolding solve_button_best_iff by (simp add: group_E_E_R2_def float_add_values)
  then show ?thesis using solve_button_E2_R2 by (simp add: base_value_simps)
qed

section \<open>The validation of the minimums and of the chips\<close>

lemma part_instance_list_high_minimum: "part_instance_list scenario_high_minimum = [E, E, E]"
  by (simp add: part_instance_list_def scenario_high_minimum_def PART_BASE_VALUES_def
      numeral_3_eq_3)

lemma resonance_15000_attained:
  "group_E_E_E_90_chips \<in> set (combos scenario_high_minimum)"
proof -
  let ?pil = "part_instance_list scenario_high_minimum"
  have "[0, 1, 2] \<in> set (combinations PARTS_PER_TB [0..<length ?pil])"
    by (intro combinations_complete) (auto simp: PARTS_PER_TB_def part_instance_list_high_minimum)
  moreover have "(90, 5) \<in> set MULTIPLIER_DATA" by (simp add: MULTIPLIER_DATA_values)
  moreover have "group_E_E_E_90_chips
     = \<lparr>idxs = [0, 1, 2], parts = map (\<lambda>i. ?pil ! i) [0, 1, 2],
        chips = fst (90::nat, 5 :: rat),
        resonance = float_mul (of_nat (sum_list (map base_value
                                         (map (\<lambda>i. ?pil ! i) [0, 1, 2]))))
                              (snd (90::nat, 5 :: rat))\<rparr>"
    by (simp add: group_E_E_E_90_chips_def part_instance_list_high_minimum base_value_simps
        float_mul_values)
  ultimately show ?thesis unfolding in_combos_iff by blast
qed

text \<open>
  Claim C7, as the code has it. The validation compares every minimum with the sum of the
  base values of all ten part types times the largest multiplier, 21500. When the minimum
  of some TB is above 21500, the validation records the issue, the handler shows the
  input-issue error and nothing else, and the solver is not called.
\<close>

theorem impossibly_high_rejected:
  "\<exists>tb < NUM_TBS inp. 21500 < minreq inp tb \<Longrightarrow>
     ''One or more minimum resonance requirements are impossibly high.'' \<in> set (input_issues inp)
     \<and> solve_button inp Fix_input_issues
     \<and> (\<forall>out. solve_button inp out \<longrightarrow> out = Fix_input_issues)"
proof -
  assume "\<exists>tb < NUM_TBS inp. 21500 < minreq inp tb"
  then have m: "''One or more minimum resonance requirements are impossibly high.''
                 \<in> set (input_issues inp)"
    by (simp add: impossibly_high_iff)
  then have "input_issues inp \<noteq> []" by auto
  then show ?thesis using m solve_button_gate_only by blast
qed

theorem impossibly_high_rejected_witness:
  "(\<exists>tb < NUM_TBS scenario_impossible_minimum. 21500 < minreq scenario_impossible_minimum tb)
   \<and> ''One or more minimum resonance requirements are impossibly high.''
        \<in> set (input_issues scenario_impossible_minimum)
   \<and> solve_button scenario_impossible_minimum Fix_input_issues
   \<and> \<not> solve_button scenario_impossible_minimum No_valid_configuration"
proof -
  have h: "\<exists>tb < NUM_TBS scenario_impossible_minimum. 21500 < minreq scenario_impossible_minimum tb"
    by (simp add: scenario_impossible_minimum_def)
  note r = impossibly_high_rejected [OF h]
  have "\<not> solve_button scenario_impossible_minimum No_valid_configuration"
  proof
    assume "solve_button scenario_impossible_minimum No_valid_configuration"
    then have "No_valid_configuration = Fix_input_issues"
      using r [THEN conjunct2, THEN conjunct2] by blast
    then show False by simp
  qed
  then show ?thesis
    using h r [THEN conjunct1] r [THEN conjunct2, THEN conjunct1] by (intro conjI)
qed

text \<open>
  Three parts of the best type with the largest multiplier reach 15000, and no candidate
  group of any inventory reaches more (\<open>resonance_le_15000\<close>). With the minimum 16000 the
  validation records no issue: the handler does not stop at the gate, it builds the program
  and shows the solver's failure.
\<close>

theorem impossibly_high_counterexample:
  "of_nat (PARTS_PER_TB * base_value E) * maximum (map snd MULTIPLIER_DATA) = (15000::rat)
   \<and> min_reqs_per_tb scenario_high_minimum = [16000]
   \<and> input_issues scenario_high_minimum = []
   \<and> \<not> solve_button scenario_high_minimum Fix_input_issues
   \<and> solve_button scenario_high_minimum No_valid_configuration"
proof -
  have "of_nat (PARTS_PER_TB * base_value E) * maximum (map snd MULTIPLIER_DATA) = (15000::rat)"
    unfolding maximum_multiplier by (simp add: PARTS_PER_TB_def base_value_simps)
  moreover have "min_reqs_per_tb scenario_high_minimum = [16000]"
    by (simp add: min_reqs_per_tb_def scenario_high_minimum_def)
  moreover have "\<not> solve_button scenario_high_minimum Fix_input_issues"
    by (simp add: solve_button_Fix_iff input_issues_high_minimum)
  ultimately show ?thesis
    using input_issues_high_minimum solve_button_high_minimum by blast
qed

text \<open>
  Claim C10. Whenever the chips available are fewer than the TBs, the validation records
  the low-chips issue, the handler shows the input-issue error and nothing else: the solver
  is not called, whatever the minimums and the inventory are. The scenario with three parts
  \<open>E\<close>, no chips and the minimum 0 has a feasible assignment that costs no chips, and is
  rejected all the same.
\<close>

theorem low_chips_rejected:
  "total_chips_available inp < NUM_TBS inp \<Longrightarrow>
     ''Chips are very low; you may not be able to meet requirements.'' \<in> set (input_issues inp)
     \<and> solve_button inp Fix_input_issues
     \<and> (\<forall>out. solve_button inp out \<longrightarrow> out = Fix_input_issues)"
proof -
  assume "total_chips_available inp < NUM_TBS inp"
  then have m: "''Chips are very low; you may not be able to meet requirements.''
                 \<in> set (input_issues inp)"
    by (simp add: input_issues_def)
  then have "input_issues inp \<noteq> []" by auto
  then show ?thesis using m solve_button_gate_only by blast
qed

theorem low_chips_rejected_witness:
  "total_chips_available scenario_no_chips < NUM_TBS scenario_no_chips
   \<and> min_reqs_per_tb scenario_no_chips = [0]
   \<and> chips group_E_E_E_plain = 0
   \<and> feasible_assignment scenario_no_chips [group_E_E_E_plain]
   \<and> solve_button scenario_no_chips Fix_input_issues
   \<and> \<not> solve_button scenario_no_chips (Best_configuration [group_E_E_E_plain] 3000)"
proof -
  have h: "total_chips_available scenario_no_chips < NUM_TBS scenario_no_chips"
    by (simp add: scenario_no_chips_def)
  note r = low_chips_rejected [OF h]
  have m: "min_reqs_per_tb scenario_no_chips = [0]"
    by (simp add: scenario_no_chips_def min_reqs_per_tb_def)
  have c: "chips group_E_E_E_plain = 0" by (simp add: group_E_E_E_plain_def)
  have "\<not> solve_button scenario_no_chips (Best_configuration [group_E_E_E_plain] 3000)"
  proof
    assume "solve_button scenario_no_chips (Best_configuration [group_E_E_E_plain] 3000)"
    then have "Best_configuration [group_E_E_E_plain] 3000 = Fix_input_issues"
      using r [THEN conjunct2, THEN conjunct2] by blast
    then show False by simp
  qed
  then show ?thesis
    using h m c feasible_assignment_no_chips r [THEN conjunct2, THEN conjunct1]
    by (intro conjI)
qed

end
